theory Spec2Isabelle
  imports Complex_Main "HOL-Library.Log_Nat"
begin

section \<open>Pagination: \<open>django/core/paginator.py\<close>\<close>

text \<open>
  The module defines three classes: \<open>Paginator\<close>, \<open>Page\<close> and
  \<open>PageURLGenerator\<close>. Exceptions are values of the type \<open>error\<close>; a method that
  can raise returns \<open>error + 'a\<close>. The two derived attributes of a paginator
  (\<open>_count\<close> and \<open>_num_pages\<close>) are memoised on first access, so every method that
  reads them returns the paginator it leaves behind next to its result.
\<close>

subsection \<open>Exceptions and Python values\<close>

text \<open>
  An exception is named by the class under which the \<open>except\<close> clauses of the module
  see it (an instance of a subclass of \<open>ValueError\<close> is a \<open>ValueError\<close>); an
  exception of a class that the module neither raises nor catches is \<open>OtherError\<close>
  with the name of the class.
\<close>

datatype error =
    PageNotAnInteger
  | EmptyPage
  | ZeroDivisionError
  | OverflowError
  | TypeError
  | ValueError
  | AttributeError
  | NoReverseMatch
  | OtherError string

text \<open>
  The values a caller passes as a page number: \<open>None\<close>, an integer, a byte string
  (the usual case, taken from the query string), a float (finite, infinite or not a
  number), or any other object. \<open>int(x)\<close> is a builtin of the interpreter, so an object of
  another class is given by what \<open>int\<close> does with it: the integer it returns or the
  exception it raises. A text string is such an object when it holds characters outside
  ASCII (\<open>int\<close> accepts Unicode white space and decimal digits in a text string); with
  ASCII characters only it coerces as the byte string does.
\<close>

datatype pyval =
    PyNone
  | PyInt int
  | PyStr string
  | PyFloat real
  | PyInf
  | PyNan
  | PyObject "error + int"

text \<open>
  Python's \<open>int(x)\<close> on these values. A string is stripped of surrounding white space
  and must then be an optional sign followed by one or more ASCII digits, otherwise
  \<open>ValueError\<close>; \<open>int(None)\<close> is a \<open>TypeError\<close>. A finite float is truncated towards
  zero, an infinite one raises \<open>OverflowError\<close> and a NaN raises \<open>ValueError\<close>.
\<close>

definition is_space :: "char \<Rightarrow> bool" where
  "is_space c = (c \<in> set [CHR '' '', CHR 0x09, CHR 0x0A, CHR 0x0B, CHR 0x0C, CHR 0x0D])"

definition is_digit :: "char \<Rightarrow> bool" where
  "is_digit c = (c \<in> set ''0123456789'')"

definition digit_value :: "char \<Rightarrow> int" where
  "digit_value c = int (of_char c) - 48"

definition digits_value :: "string \<Rightarrow> int" where
  "digits_value ds = foldl (\<lambda>acc c. 10 * acc + digit_value c) 0 ds"

definition strip :: "string \<Rightarrow> string" where
  "strip s = rev (dropWhile is_space (rev (dropWhile is_space s)))"

definition int_of_string :: "string \<Rightarrow> error + int" where
  "int_of_string s =
     (let t = strip s;
          (sgn, ds) = (case t of
                         c # r \<Rightarrow> if c = CHR ''-'' then (- 1, r)
                                  else if c = CHR ''+'' then (1, r)
                                  else (1, t)
                       | [] \<Rightarrow> (1, t))
      in if ds \<noteq> [] \<and> list_all is_digit ds then Inr (sgn * digits_value ds)
         else Inl ValueError)"

fun py_int :: "pyval \<Rightarrow> error + int" where
  "py_int PyNone = Inl TypeError"
| "py_int (PyInt n) = Inr n"
| "py_int (PyStr s) = int_of_string s"
| "py_int (PyFloat x) = Inr (if 0 \<le> x then \<lfloor>x\<rfloor> else \<lceil>x\<rceil>)"
| "py_int PyInf = Inl OverflowError"
| "py_int PyNan = Inl ValueError"
| "py_int (PyObject r) = r"

text \<open>
  Slicing a list, \<open>xs[lo:hi]\<close>: a negative bound counts from the end, both bounds are
  clamped to \<open>0..len(xs)\<close>, and the slice is empty when the bounds cross.
\<close>

definition slice_bound :: "int \<Rightarrow> int \<Rightarrow> int" where
  "slice_bound n i = (if i < 0 then max 0 (i + n) else min i n)"

definition py_slice :: "'a list \<Rightarrow> int \<Rightarrow> int \<Rightarrow> 'a list" where
  "py_slice xs lo hi =
     (let n = int (length xs); l = slice_bound n lo; h = slice_bound n hi
      in take (nat (h - l)) (drop (nat l) xs))"

subsection \<open>Double-precision numbers\<close>

text \<open>
  \<open>num_pages\<close> divides in floating point. A double is written as a pair \<open>(m, q)\<close> of
  integers that stands for \<open>m * 2^q\<close>. Around a positive ratio \<open>a / b\<close> with
  \<open>2^e \<le> a / b < 2^(e + 1)\<close> the doubles are the multiples of \<open>2^q\<close> for
  \<open>q = max (e - 52) (-1074)\<close>: 53 significant bits, and the exponent of the smallest
  double. The arithmetic rounds to the nearest of them and, half way between two, to
  the one with the even multiplier.
\<close>

text \<open>The integer nearest to \<open>n / d\<close> for \<open>d > 0\<close>, the even one of two.\<close>

definition round_half_even :: "int \<Rightarrow> int \<Rightarrow> int" where
  "round_half_even n d =
     (let f = n div d; r = n mod d
      in if 2 * r < d then f else if d < 2 * r then f + 1 else if even f then f else f + 1)"

text \<open>
  The exponent \<open>e\<close> with \<open>2^e \<le> a / b < 2^(e + 1)\<close> for positive \<open>a\<close> and \<open>b\<close>: the
  difference of the bit lengths, or one less.
\<close>

definition floor_log2 :: "int \<Rightarrow> int \<Rightarrow> int" where
  "floor_log2 a b =
     (let d = bitlen a - bitlen b
      in if b * 2 ^ nat d \<le> a * 2 ^ nat (- d) then d else d - 1)"

text \<open>The double nearest to \<open>a / b\<close> for positive \<open>a\<close> and \<open>b\<close>.\<close>

definition nearest_double :: "int \<Rightarrow> int \<Rightarrow> int \<times> int" where
  "nearest_double a b =
     (let q = max (floor_log2 a b - 52) (- 1074)
      in (round_half_even (a * 2 ^ nat (- q)) (b * 2 ^ nat q), q))"

text \<open>
  \<open>float(n)\<close> for an integer \<open>n\<close>: the nearest double, or \<open>OverflowError\<close> when that
  is \<open>2^1024\<close> or more. The double nearest to an integer is an integer, and the result
  is given as that integer.
\<close>

definition py_float :: "int \<Rightarrow> error + int" where
  "py_float n =
     (if n = 0 then Inr 0
      else (let (m, q) = nearest_double \<bar>n\<bar> 1;
                d = (m * 2 ^ nat q) div 2 ^ nat (- q)
            in if 2 ^ 1024 \<le> d then Inl OverflowError else Inr (sgn n * d)))"

text \<open>
  \<open>a / b\<close> for two doubles with the integer values \<open>a\<close> and \<open>b \<noteq> 0\<close>. The divisor is
  a non-zero integer, so the quotient is not larger than \<open>a\<close> and the division does
  not overflow.
\<close>

definition float_truediv :: "int \<Rightarrow> int \<Rightarrow> int \<times> int" where
  "float_truediv a b =
     (if a = 0 then (0, 0)
      else (let (m, q) = nearest_double \<bar>a\<bar> \<bar>b\<bar> in (sgn a * sgn b * m, q)))"

text \<open>\<open>int(ceil(x))\<close> for the double \<open>x = m * 2^q\<close>.\<close>

definition ceil_double :: "int \<times> int \<Rightarrow> int" where
  "ceil_double x = (case x of (m, q) \<Rightarrow> - ((- (m * 2 ^ nat q)) div 2 ^ nat (- q)))"

text \<open>
  The expression \<open>int(ceil(hits / float(self.per_page)))\<close> of line 91. \<open>float\<close> is
  applied to \<open>per_page\<close> first; the division then converts \<open>hits\<close> to a double, and
  raises \<open>ZeroDivisionError\<close> when the divisor is zero.
\<close>

definition ceil_quotient :: "int \<Rightarrow> int \<Rightarrow> error + int" where
  "ceil_quotient hits pp =
     (case py_float pp of
        Inl e \<Rightarrow> Inl e
      | Inr b \<Rightarrow>
          (case py_float hits of
             Inl e \<Rightarrow> Inl e
           | Inr a \<Rightarrow>
               if b = 0 then Inl ZeroDivisionError
               else Inr (ceil_double (float_truediv a b))))"

subsection \<open>Paginator\<close>

text \<open>
  \<open>object_list\<close> is a Python list held in memory: every element takes a pointer of eight
  bytes and the address space of a process is at most \<open>2^56\<close> bytes, so a list has
  fewer than \<open>2^53\<close> elements. \<open>items\<close> gives the elements of such a list.
\<close>

typedef 'a pylist = "{xs :: 'a list. int (length xs) < 2 ^ 53}"
  morphisms items pylist
  by (rule exI [of _ "[]"]) simp

text \<open>
  The \<open>count()\<close> method of a list wants an argument, so \<open>_get_count\<close> always lands in
  the \<open>len\<close> branch. The cached attributes \<open>_count\<close> and \<open>_num_pages\<close> are the
  fields \<open>count_cache\<close> and \<open>num_pages_cache\<close>. The constructor stores
  \<open>int(per_page)\<close> and \<open>int(orphans)\<close>; it is given the integers.
\<close>

record 'a paginator =
  object_list :: "'a pylist"
  per_page :: int
  orphans :: int
  allow_empty_first_page :: bool
  num_pages_cache :: "int option"
  count_cache :: "int option"

definition Paginator_init :: "'a pylist \<Rightarrow> int \<Rightarrow> int \<Rightarrow> bool \<Rightarrow> 'a paginator" where
  "Paginator_init ol pp orph allow =
     \<lparr> object_list = ol, per_page = pp, orphans = orph,
       allow_empty_first_page = allow, num_pages_cache = None, count_cache = None \<rparr>"

definition get_count :: "'a paginator \<Rightarrow> int \<times> 'a paginator" where
  "get_count p =
     (case count_cache p of
        None \<Rightarrow> (let c = int (length (items (object_list p))) in (c, p\<lparr>count_cache := Some c\<rparr>))
      | Some c \<Rightarrow> (c, p))"

text \<open>
  \<open>_get_num_pages\<close>. The quotient of line 91 is computed in double precision; when it
  raises, \<open>_num_pages\<close> stays unset.
\<close>

definition get_num_pages :: "'a paginator \<Rightarrow> (error + int) \<times> 'a paginator" where
  "get_num_pages p =
     (case num_pages_cache p of
        Some n \<Rightarrow> (Inr n, p)
      | None \<Rightarrow>
          (let (c, p1) = get_count p in
           if c = 0 \<and> \<not> allow_empty_first_page p1
           then (Inr 0, p1\<lparr>num_pages_cache := Some 0\<rparr>)
           else
             (let (c', p2) = get_count p1;
                  hits = max 1 (c' - orphans p2)
              in case ceil_quotient hits (per_page p2) of
                   Inl e \<Rightarrow> (Inl e, p2)
                 | Inr n \<Rightarrow> (Inr n, p2\<lparr>num_pages_cache := Some n\<rparr>))))"

text \<open>
  \<open>validate_number\<close>. The \<open>except\<close> clause of line 36 catches \<open>TypeError\<close> and
  \<open>ValueError\<close>; any other exception of \<open>int(number)\<close> leaves the method, as does an
  exception of \<open>num_pages\<close>.
\<close>

definition validate_number :: "'a paginator \<Rightarrow> pyval \<Rightarrow> (error + int) \<times> 'a paginator" where
  "validate_number p v =
     (case py_int v of
        Inl e \<Rightarrow>
          if e = TypeError \<or> e = ValueError then (Inl PageNotAnInteger, p) else (Inl e, p)
      | Inr number \<Rightarrow>
          if number < 1 then (Inl EmptyPage, p)
          else
            (case get_num_pages p of
               (Inl e, p1) \<Rightarrow> (Inl e, p1)
             | (Inr np, p1) \<Rightarrow>
                 if number > np
                 then (if number = 1 \<and> allow_empty_first_page p1 then (Inr number, p1)
                       else (Inl EmptyPage, p1))
                 else (Inr number, p1)))"

subsection \<open>Page\<close>

record 'a page =
  page_object_list :: "'a list"
  number :: int
  paginator :: "'a paginator"

definition get_page :: "'a list \<Rightarrow> int \<Rightarrow> 'a paginator \<Rightarrow> 'a page" where
  "get_page ol n p = \<lparr> page_object_list = ol, number = n, paginator = p \<rparr>"

text \<open>
  \<open>Paginator.page\<close>. The page keeps a reference to the paginator, so its
  \<open>paginator\<close> field is the paginator as the call leaves it.
\<close>

definition page :: "'a paginator \<Rightarrow> pyval \<Rightarrow> (error + 'a page) \<times> 'a paginator" where
  "page p v =
     (case validate_number p v of
        (Inl e, p1) \<Rightarrow> (Inl e, p1)
      | (Inr n, p1) \<Rightarrow>
          (let bottom = (n - 1) * per_page p1;
               top = bottom + per_page p1;
               (c, p2) = get_count p1;
               (top', p3) = (if top + orphans p2 \<ge> c then get_count p2 else (top, p2))
           in (Inr (get_page (py_slice (items (object_list p3)) bottom top') n p3), p3)))"


definition with_num_pages ::
  "'a page \<Rightarrow> (int \<Rightarrow> 'a page \<Rightarrow> (error + 'b) \<times> 'a page) \<Rightarrow> (error + 'b) \<times> 'a page" where
  "with_num_pages pg k =
     (case get_num_pages (paginator pg) of
        (Inl e, p') \<Rightarrow> (Inl e, pg\<lparr>paginator := p'\<rparr>)
      | (Inr np, p') \<Rightarrow> k np (pg\<lparr>paginator := p'\<rparr>))"

definition has_next :: "'a page \<Rightarrow> (error + bool) \<times> 'a page" where
  "has_next pg = with_num_pages pg (\<lambda>np pg1. (Inr (number pg1 < np), pg1))"

definition has_previous :: "'a page \<Rightarrow> bool" where
  "has_previous pg = (number pg > 1)"



text \<open>
  \<open>padded_page_range\<close>. Each \<open>for i in range(a, b + 1): page_range.append(i)\<close>
  appends the numbers \<open>a..b\<close> in order; \<open>if cap\<close> tests \<open>cap \<noteq> 0\<close>, and the
  \<open>and\<close> of the last test does not read \<open>num_pages\<close> when \<open>cap\<close> is zero.
\<close>

definition padded_page_range ::
  "'a page \<Rightarrow> int \<Rightarrow> int \<Rightarrow> (error + int option list) \<times> 'a page" where
  "padded_page_range pg padding cap =
     with_num_pages pg (\<lambda>np1 pg1.
       let head_end = min cap np1;
           body_start = max (head_end + 1) (number pg1 - padding)
       in with_num_pages pg1 (\<lambda>np2 pg2.
            let body_end = min (number pg2 + padding) np2;
                range1 = (if cap \<noteq> 0
                          then map Some [1..head_end] @
                               (if body_start > head_end + 1 then [None] else [])
                          else []);
                range2 = range1 @ map Some [body_start..body_end]
            in if cap = 0 then (Inr range2, pg2)
               else with_num_pages pg2 (\<lambda>np3 pg3.
                      if \<not> body_end < np3 then (Inr range2, pg3)
                      else with_num_pages pg3 (\<lambda>np4 pg4.
                             let tail_start = max body_end (np4 - cap) + 1;
                                 range3 = (if tail_start > body_end + 1
                                           then range2 @ [None] else range2)
                             in with_num_pages pg4 (\<lambda>np5 pg5.
                                  (Inr (range3 @ map Some [tail_start..np5]), pg5))))))"

subsection \<open>PageURLGenerator\<close>

text \<open>
  The route resolver and the query string's encoder belong to the framework, not to this
  module: they are parameters. \<open>reverse\<close> takes the route name, the positional and
  keyword arguments and the application hint, and either returns a URL or raises
  (\<open>NoReverseMatch\<close> when there is no such route).
\<close>

type_synonym kwargs = "(string \<times> pyval) list"
type_synonym querydict = "(string \<times> pyval) list"

record url_env =
  reverse :: "string \<Rightarrow> pyval list option \<Rightarrow> kwargs option \<Rightarrow> string option \<Rightarrow> error + string"
  urlencode :: "querydict \<Rightarrow> string"

datatype url_method = By_kwarg | By_querydict

record page_url_generator =
  url_name :: string
  url_args :: "pyval list option"
  url_kwargs :: "kwargs option"
  current_app :: "string option"
  page_arg :: string
  base_url :: "string option"
  querydict :: querydict
  get_url_attr :: "url_method option"

text \<open>Truth value of \<open>self.base_url\<close>: \<open>None\<close> and the empty string are false.\<close>

definition truthy_url :: "string option \<Rightarrow> bool" where
  "truthy_url u = (case u of None \<Rightarrow> False | Some s \<Rightarrow> s \<noteq> [])"

text \<open>\<open>'{0}'.format(url)\<close>: \<open>None\<close> prints as the word None.\<close>

definition format_url :: "string option \<Rightarrow> string" where
  "format_url u = (case u of None \<Rightarrow> ''None'' | Some s \<Rightarrow> s)"

definition build_full_url :: "url_env \<Rightarrow> string option \<Rightarrow> querydict \<Rightarrow> string option" where
  "build_full_url env url qd =
     (if qd = [] then url
      else Some (format_url url @ ''?'' @ urlencode env qd))"

text \<open>
  Line 267 of the source is the expression \<open>reverse_kwargs[self.page_arg: number]\<close>:
  a subscript of a dictionary with the slice \<open>page_arg:number\<close>, not an assignment.
  A slice is not hashable, so the lookup raises \<open>TypeError\<close> whatever the dictionary
  holds.
\<close>

definition dict_getitem_slice :: "kwargs \<Rightarrow> string \<Rightarrow> int \<Rightarrow> error + pyval" where
  "dict_getitem_slice d lo hi = Inl TypeError"

definition get_url_by_kwarg :: "url_env \<Rightarrow> page_url_generator \<Rightarrow> int \<Rightarrow> error + string option" where
  "get_url_by_kwarg env g n =
     (if n = 1 \<and> truthy_url (base_url g)
      then Inr (build_full_url env (base_url g) (querydict g))
      else
        (let reverse_kwargs = (case url_kwargs g of
                                 None \<Rightarrow> []
                               | Some kw \<Rightarrow> if kw = [] then [] else kw)
         in case dict_getitem_slice reverse_kwargs (page_arg g) n of
              Inl e \<Rightarrow> Inl e
            | Inr _ \<Rightarrow>
                (case reverse env (url_name g) (url_args g) (Some reverse_kwargs) (current_app g) of
                   Inl e \<Rightarrow> Inl e
                 | Inr url \<Rightarrow> Inr (build_full_url env (Some url) (querydict g)))))"

definition dict_setitem :: "querydict \<Rightarrow> string \<Rightarrow> pyval \<Rightarrow> querydict" where
  "dict_setitem qd k v =
     (if k \<in> fst ` set qd then map (\<lambda>(k', v'). if k' = k then (k', v) else (k', v')) qd
      else qd @ [(k, v)])"

definition dict_delitem :: "querydict \<Rightarrow> string \<Rightarrow> querydict" where
  "dict_delitem qd k = filter (\<lambda>(k', v'). k' \<noteq> k) qd"

definition get_url_by_querydict :: "url_env \<Rightarrow> page_url_generator \<Rightarrow> int \<Rightarrow> error + string option" where
  "get_url_by_querydict env g n =
     (let qd = (if n \<noteq> 1 then dict_setitem (querydict g) (page_arg g) (PyInt n)
                else querydict g)
      in Inr (build_full_url env (base_url g) qd))"

text \<open>
  The constructor. Only \<open>NoReverseMatch\<close> is caught, both around the first
  \<open>reverse\<close> and around the trial call \<open>get_url_by_kwarg(1)\<close>; any other exception
  leaves the constructor.
\<close>

definition PageURLGenerator_init ::
  "url_env \<Rightarrow> querydict \<Rightarrow> string \<Rightarrow> pyval list option \<Rightarrow> kwargs option \<Rightarrow> string option \<Rightarrow> string
     \<Rightarrow> error + page_url_generator" where
  "PageURLGenerator_init env qd name args kw app parg =
     (case (case reverse env name args kw app of
              Inl e \<Rightarrow> if e = NoReverseMatch then Inr None else Inl e
            | Inr u \<Rightarrow> Inr (Some u)) of
        Inl e \<Rightarrow> Inl e
      | Inr base \<Rightarrow>
          (let g = \<lparr> url_name = name, url_args = args, url_kwargs = kw, current_app = app,
                     page_arg = parg, base_url = base, querydict = qd, get_url_attr = None \<rparr>
           in case (case get_url_by_kwarg env g 1 of
                      Inl e \<Rightarrow> if e = NoReverseMatch then Inr True else Inl e
                    | Inr _ \<Rightarrow> Inr False) of
                Inl e \<Rightarrow> Inl e
              | Inr querystring \<Rightarrow>
                  if querystring
                  then (if \<not> truthy_url (base_url g) then Inl ValueError
                        else Inr (g\<lparr> get_url_attr := Some By_querydict,
                                     querydict := (if parg \<in> fst ` set qd
                                                   then dict_delitem qd parg else qd) \<rparr>))
                  else Inr (g\<lparr> get_url_attr := Some By_kwarg \<rparr>)))"

text \<open>\<open>self.get_url\<close> is the method the constructor bound.\<close>

definition get_url :: "url_env \<Rightarrow> page_url_generator \<Rightarrow> int \<Rightarrow> error + string option" where
  "get_url env g n =
     (case get_url_attr g of
        None \<Rightarrow> Inl AttributeError
      | Some By_kwarg \<Rightarrow> get_url_by_kwarg env g n
      | Some By_querydict \<Rightarrow> get_url_by_querydict env g n)"

text \<open>
  \<open>range_urls\<close> calls \<open>self.build_url(number)\<close>. Neither the class nor its
  constructor defines an attribute of that name (the methods are \<open>get_url_by_kwarg\<close>,
  \<open>get_url_by_querydict\<close>, \<open>build_full_url\<close> and \<open>range_urls\<close>, the bound attribute
  is \<open>get_url\<close>), so the attribute lookup raises \<open>AttributeError\<close>.
\<close>

definition build_url :: "url_env \<Rightarrow> page_url_generator \<Rightarrow> int \<Rightarrow> error + string option" where
  "build_url env g n = Inl AttributeError"

text \<open>Truth value of an entry of the page range: \<open>None\<close> and \<open>0\<close> are false.\<close>

definition truthy_number :: "int option \<Rightarrow> bool" where
  "truthy_number x = (case x of None \<Rightarrow> False | Some n \<Rightarrow> n \<noteq> 0)"

fun range_urls_loop ::
  "url_env \<Rightarrow> page_url_generator \<Rightarrow> (int option \<times> string option) list \<Rightarrow> int option list
     \<Rightarrow> error + (int option \<times> string option) list" where
  "range_urls_loop env g urls [] = Inr urls"
| "range_urls_loop env g urls (x # rest) =
     (case (if truthy_number x then build_url env g (the x) else Inr None) of
        Inl e \<Rightarrow> Inl e
      | Inr url \<Rightarrow> range_urls_loop env g (urls @ [(x, url)]) rest)"

definition range_urls ::
  "url_env \<Rightarrow> page_url_generator \<Rightarrow> int option list \<Rightarrow> error + (int option \<times> string option) list" where
  "range_urls env g page_range = range_urls_loop env g [] page_range"

text \<open>
  A resolver with the single route \<open>widget_list\<close>, which takes no arguments; it is
  used to run the generator on concrete input.
\<close>

definition example_reverse ::
  "string \<Rightarrow> pyval list option \<Rightarrow> kwargs option \<Rightarrow> string option \<Rightarrow> error + string" where
  "example_reverse name args kw app =
     (if name = ''widget_list'' then Inr ''/widgets/list/'' else Inl NoReverseMatch)"

section \<open>Derived attributes without the cache\<close>

text \<open>
  What \<open>count\<close> and \<open>num_pages\<close> compute from the paginator's fields. A paginator is
  \<open>cache_ok\<close> when its cached attributes are unset or hold these values; a new
  paginator is, and every method keeps it so.
\<close>

definition count_of :: "'a paginator \<Rightarrow> int" where
  "count_of p = int (length (items (object_list p)))"

definition hits_of :: "'a paginator \<Rightarrow> int" where
  "hits_of p = max 1 (count_of p - orphans p)"

definition num_pages_of :: "'a paginator \<Rightarrow> error + int" where
  "num_pages_of p =
     (if count_of p = 0 \<and> \<not> allow_empty_first_page p then Inr 0
      else ceil_quotient (hits_of p) (per_page p))"

definition cache_ok :: "'a paginator \<Rightarrow> bool" where
  "cache_ok p =
     ((case count_cache p of None \<Rightarrow> True | Some c \<Rightarrow> c = count_of p) \<and>
      (case num_pages_cache p of None \<Rightarrow> True | Some n \<Rightarrow> num_pages_of p = Inr n))"

definition validate_of :: "'a paginator \<Rightarrow> pyval \<Rightarrow> error + int" where
  "validate_of p v =
     (case py_int v of
        Inl e \<Rightarrow> if e = TypeError \<or> e = ValueError then Inl PageNotAnInteger else Inl e
      | Inr n \<Rightarrow>
          if n < 1 then Inl EmptyPage
          else (case num_pages_of p of
                  Inl e \<Rightarrow> Inl e
                | Inr np \<Rightarrow>
                    if n > np \<and> \<not> (n = 1 \<and> allow_empty_first_page p) then Inl EmptyPage
                    else Inr n))"

text \<open>Two paginators that differ in the cached attributes only.\<close>

definition same_fields :: "'a paginator \<Rightarrow> 'a paginator \<Rightarrow> bool" where
  "same_fields p q =
     (object_list q = object_list p \<and> per_page q = per_page p \<and> orphans q = orphans p \<and>
      allow_empty_first_page q = allow_empty_first_page p)"

text \<open>The power of two \<open>2^k\<close> as a real number, for an integer exponent.\<close>

definition pw :: "int \<Rightarrow> real" where
  "pw k = 2 powr real_of_int k"

section \<open>Facts about the double-precision quotient\<close>

text \<open>
  Rounding moves a ratio by at most half a unit in the last place. It follows that
  \<open>float\<close> is exact below \<open>2^53\<close> and overflows from \<open>2^1024 - 2^970\<close> on, and that
  the quotient of line 91 is the exact ceiling whenever \<open>hits\<close> is below \<open>2^53\<close> and
  \<open>float(per_page)\<close> does not overflow.
\<close>

lemma pw_pos: "0 < pw k"
  by (simp add: pw_def)

lemma pw_add: "pw (j + k) = pw j * pw k"
  by (simp add: pw_def powr_add)

lemma pw_zero: "pw 0 = 1"
  by (simp add: pw_def)

lemma pw_minus: "pw (- k) = 1 / pw k"
  by (simp add: pw_def powr_minus_divide)

lemma pw_le: "pw j \<le> pw k \<longleftrightarrow> j \<le> k"
  by (simp add: pw_def)

lemma pw_less: "pw j < pw k \<longleftrightarrow> j < k"
  by (simp add: pw_def)

lemma pw_nat: "0 \<le> k \<Longrightarrow> pw k = 2 ^ nat k"
  using powr_realpow [of "2::real" "nat k"] by (simp add: pw_def)

lemma pw_diff: "pw (j - k) = pw j / pw k"
  using pw_add [of j "- k"] by (simp add: pw_minus)

lemma two_power_nat: "(2::real) ^ nat k = (if 0 \<le> k then pw k else 1)"
  by (simp add: pw_nat)

lemma two_power_ratio: "real_of_int (2 ^ nat (- q)) / real_of_int (2 ^ nat q) = 1 / pw q"
proof (cases "0 \<le> q")
  case True
  then show ?thesis by (cases "q = 0") (simp_all add: two_power_nat pw_zero)
next
  case False
  then have "real_of_int (2 ^ nat (- q)) = pw (- q)" by (simp add: two_power_nat)
  moreover have "real_of_int (2 ^ nat q) = 1" using False by simp
  ultimately show ?thesis by (simp add: pw_minus)
qed

lemma round_half_even_error:
  assumes "0 < d"
  shows "\<bar>real_of_int (round_half_even n d) - real_of_int n / real_of_int d\<bar> \<le> 1 / 2"
proof -
  define f where "f = n div d"
  define r where "r = n mod d"
  have n: "n = d * f + r" by (simp add: f_def r_def)
  have r: "0 \<le> r" "r < d" using assms by (simp_all add: r_def)
  have x: "real_of_int n / real_of_int d = real_of_int f + real_of_int r / real_of_int d"
    using assms by (simp add: n field_simps)
  consider "2 * r < d" | "d < 2 * r" | "2 * r = d" by linarith
  then show ?thesis
  proof cases
    case 1
    then have "2 * real_of_int r < real_of_int d" by linarith
    then have "real_of_int r / real_of_int d < 1 / 2" using assms by (simp add: field_simps)
    moreover have "0 \<le> real_of_int r / real_of_int d" using r assms by simp
    moreover have "round_half_even n d = f"
      using 1 by (simp add: round_half_even_def f_def r_def Let_def)
    ultimately show ?thesis using x by simp
  next
    case 2
    then have "real_of_int d < 2 * real_of_int r" by linarith
    then have "1 / 2 < real_of_int r / real_of_int d" using assms by (simp add: field_simps)
    moreover have "real_of_int r / real_of_int d < 1" using r assms by simp
    moreover have "round_half_even n d = f + 1"
      using 2 by (simp add: round_half_even_def f_def r_def Let_def)
    ultimately show ?thesis using x by simp
  next
    case 3
    then have "2 * real_of_int r = real_of_int d" by linarith
    then have h: "real_of_int r / real_of_int d = 1 / 2" using assms by (simp add: field_simps)
    have "round_half_even n d = f \<or> round_half_even n d = f + 1"
      using 3 by (simp add: round_half_even_def f_def r_def Let_def)
    then show ?thesis using x h by auto
  qed
qed

lemma int_power_bounds:
  fixes a :: int
  assumes "2 ^ j \<le> a \<and> a < 2 ^ k"
  shows "(2::real) ^ j \<le> real_of_int a \<and> real_of_int a < 2 ^ k"
proof -
  have "real_of_int (2 ^ j) \<le> real_of_int a" using assms by (simp only: of_int_le_iff)
  moreover have "real_of_int a < real_of_int (2 ^ k)" using assms by (simp only: of_int_less_iff)
  ultimately show ?thesis by simp
qed

lemma floor_log2_bounds:
  assumes "0 < a" "0 < b"
  shows "pw (floor_log2 a b) \<le> real_of_int a / real_of_int b"
    and "real_of_int a / real_of_int b < pw (floor_log2 a b + 1)"
proof -
  define d where "d = bitlen a - bitlen b"
  have la: "1 \<le> bitlen a" using assms(1) bitlen_eq_zero_iff [of a] bitlen_nonneg [of a] by linarith
  have lb: "1 \<le> bitlen b" using assms(2) bitlen_eq_zero_iff [of b] bitlen_nonneg [of b] by linarith
  have a1: "pw (bitlen a - 1) \<le> real_of_int a" and a2: "real_of_int a < pw (bitlen a)"
    using int_power_bounds [OF bitlen_bounds [OF assms(1)]] la by (simp_all add: pw_nat)
  have b1: "pw (bitlen b - 1) \<le> real_of_int b" and b2: "real_of_int b < pw (bitlen b)"
    using int_power_bounds [OF bitlen_bounds [OF assms(2)]] lb by (simp_all add: pw_nat)
  have bpos: "0 < real_of_int b" using assms(2) by simp
  have apos: "0 < real_of_int a" using assms(1) by simp
  have lo: "pw (d - 1) < real_of_int a / real_of_int b"
  proof -
    have "pw (d - 1) * real_of_int b < pw (d - 1) * pw (bitlen b)"
      using b2 pw_pos [of "d - 1"] by simp
    also have "\<dots> = pw (bitlen a - 1)"
      by (simp add: d_def flip: pw_add)
    also have "\<dots> \<le> real_of_int a" by (rule a1)
    finally show ?thesis using bpos by (simp add: pos_less_divide_eq)
  qed
  have hi: "real_of_int a / real_of_int b < pw (d + 1)"
  proof -
    have "real_of_int a < pw (bitlen a)" by (rule a2)
    also have "\<dots> = pw (d + 1) * pw (bitlen b - 1)"
      by (simp add: d_def flip: pw_add)
    also have "\<dots> \<le> pw (d + 1) * real_of_int b"
      using b1 pw_pos [of "d + 1"] by simp
    finally show ?thesis using bpos by (simp add: pos_divide_less_eq)
  qed
  have test: "b * 2 ^ nat d \<le> a * 2 ^ nat (- d) \<longleftrightarrow> pw d \<le> real_of_int a / real_of_int b"
  proof -
    have "b * 2 ^ nat d \<le> a * 2 ^ nat (- d) \<longleftrightarrow>
            real_of_int (b * 2 ^ nat d) \<le> real_of_int (a * 2 ^ nat (- d))"
      by (simp only: of_int_le_iff)
    also have "\<dots> \<longleftrightarrow> real_of_int b * 2 ^ nat d \<le> real_of_int a * 2 ^ nat (- d)"
      by simp
    also have "\<dots> \<longleftrightarrow> real_of_int b * pw d \<le> real_of_int a"
    proof (cases "0 \<le> d")
      case True
      then show ?thesis by (cases "d = 0") (simp_all add: two_power_nat pw_zero)
    next
      case False
      then have n1: "(2::real) ^ nat d = 1" and n2: "(2::real) ^ nat (- d) = 1 / pw d"
        by (simp_all add: two_power_nat pw_minus)
      show ?thesis unfolding n1 n2 using pw_pos [of d] by (simp add: field_simps)
    qed
    also have "\<dots> \<longleftrightarrow> pw d \<le> real_of_int a / real_of_int b"
      using bpos by (simp add: pos_le_divide_eq mult.commute)
    finally show ?thesis .
  qed
  show "pw (floor_log2 a b) \<le> real_of_int a / real_of_int b"
    using test lo by (auto simp add: floor_log2_def Let_def simp flip: d_def)
  show "real_of_int a / real_of_int b < pw (floor_log2 a b + 1)"
    using test hi by (auto simp add: floor_log2_def Let_def simp flip: d_def)
qed

lemma nearest_double_error:
  assumes "0 < a" "0 < b" "nearest_double a b = (m, q)"
  shows "\<bar>real_of_int m * pw q - real_of_int a / real_of_int b\<bar> \<le> pw q / 2"
proof -
  have m: "m = round_half_even (a * 2 ^ nat (- q)) (b * 2 ^ nat q)"
    using assms(3) by (auto simp add: nearest_double_def Let_def)
  have dpos: "0 < b * 2 ^ nat q" using assms(2) by simp
  have ratio: "real_of_int (a * 2 ^ nat (- q)) / real_of_int (b * 2 ^ nat q)
                 = (real_of_int a / real_of_int b) / pw q"
  proof -
    have "real_of_int (a * 2 ^ nat (- q)) / real_of_int (b * 2 ^ nat q)
            = (real_of_int a / real_of_int b) *
              (real_of_int (2 ^ nat (- q)) / real_of_int (2 ^ nat q))"
      by simp
    then show ?thesis by (simp only: two_power_ratio) simp
  qed
  have "\<bar>real_of_int m - (real_of_int a / real_of_int b) / pw q\<bar> \<le> 1 / 2"
    using round_half_even_error [OF dpos, of "a * 2 ^ nat (- q)"] by (simp only: m ratio)
  then have "\<bar>real_of_int m - (real_of_int a / real_of_int b) / pw q\<bar> * pw q \<le> (1 / 2) * pw q"
    using pw_pos [of q] by (simp only: mult_le_cancel_right) simp
  moreover have "\<bar>real_of_int m - (real_of_int a / real_of_int b) / pw q\<bar> * pw q
        = \<bar>real_of_int m * pw q - real_of_int a / real_of_int b\<bar>"
  proof -
    have "\<bar>real_of_int m - (real_of_int a / real_of_int b) / pw q\<bar> * pw q
            = \<bar>(real_of_int m - (real_of_int a / real_of_int b) / pw q) * pw q\<bar>"
      using pw_pos [of q] by (simp add: abs_mult)
    also have "(real_of_int m - (real_of_int a / real_of_int b) / pw q) * pw q
                 = real_of_int m * pw q - real_of_int a / real_of_int b"
      using pw_pos [of q] by (simp add: field_simps)
    finally show ?thesis .
  qed
  ultimately show ?thesis by simp
qed

lemma nearest_double_quantum:
  assumes "nearest_double a b = (m, q)"
  shows "q = max (floor_log2 a b - 52) (- 1074)"
  using assms by (auto simp add: nearest_double_def Let_def)

lemma ceil_double_eq: "ceil_double (m, q) = \<lceil>real_of_int m * pw q\<rceil>"
proof (cases "0 \<le> q")
  case True
  then have "real_of_int m * pw q = real_of_int (m * 2 ^ nat q)"
    by (simp add: pw_nat)
  then have "\<lceil>real_of_int m * pw q\<rceil> = m * 2 ^ nat q"
    by (simp only: ceiling_of_int)
  moreover have "ceil_double (m, q) = m * 2 ^ nat q"
    using True by (cases "q = 0") (simp_all add: ceil_double_def)
  ultimately show ?thesis by simp
next
  case False
  then have c: "ceil_double (m, q) = - ((- m) div 2 ^ nat (- q))"
    by (simp add: ceil_double_def)
  have "real_of_int m * pw q = real_of_int m / real_of_int (2 ^ nat (- q))"
    using False pw_minus [of q] pw_pos [of q] by (simp add: two_power_nat)
  then have "\<lceil>real_of_int m * pw q\<rceil> = - \<lfloor>real_of_int (- m) / real_of_int (2 ^ nat (- q))\<rfloor>"
    by (simp add: ceiling_def)
  also have "\<dots> = - ((- m) div 2 ^ nat (- q))"
    by (simp only: floor_divide_of_int_eq)
  finally show ?thesis using c by simp
qed

lemma int_le_half_up: "real_of_int m \<le> real_of_int n + 1 / 2 \<Longrightarrow> m \<le> n"
  by linarith

lemma int_le_half_down: "real_of_int n - 1 / 2 \<le> real_of_int m \<Longrightarrow> n \<le> m"
  by linarith

lemma pw_numeral_53: "pw 53 = 2 ^ 53"
  using pw_nat [of 53] by simp

lemma pw_numeral_52: "pw 52 = 2 ^ 52"
  using pw_nat [of 52] by simp

lemma pw_numeral_1024: "pw 1024 = 2 ^ 1024"
  using pw_nat [of 1024] by simp

lemma real_ge_power: "2 ^ k \<le> n \<Longrightarrow> (2::real) ^ k \<le> real_of_int n"
  by simp

lemma real_less_power: "n < 2 ^ k \<Longrightarrow> real_of_int n < 2 ^ k"
  by simp

lemma int_ge_power: "(2::real) ^ k \<le> real_of_int n \<Longrightarrow> 2 ^ k \<le> n"
  by simp

lemma int_less_power: "real_of_int n < 2 ^ k \<Longrightarrow> n < 2 ^ k"
  by simp

lemma pw_numeral_971: "pw 971 = 2 ^ 971"
  using pw_nat [of 971] by simp

lemma nearest_double_ge:
  assumes "0 < a" "0 < b" "nearest_double a b = (m, q)" "- 1022 \<le> floor_log2 a b"
  shows "pw (floor_log2 a b) \<le> real_of_int m * pw q"
proof -
  define e where "e = floor_log2 a b"
  define U where "U = pw q"
  define X where "X = real_of_int a / real_of_int b"
  define V where "V = real_of_int m * U"
  define c :: real where "c = 2 ^ 52"
  have Upos: "0 < U" by (simp add: U_def pw_pos)
  have q: "q = e - 52"
    using nearest_double_quantum [OF assms(3)] assms(4) by (simp add: e_def)
  have pe: "pw e = c * U"
    using pw_add [of 52 q] by (simp add: q pw_numeral_52 U_def c_def)
  have 1: "c * U \<le> X"
    unfolding X_def e_def pe [symmetric, unfolded e_def] using assms(1,2) by (rule floor_log2_bounds)
  have 2: "\<bar>V - X\<bar> \<le> U / 2"
    unfolding V_def U_def X_def using assms(1,2,3) by (rule nearest_double_error)
  have 3: "c * U - U / 2 \<le> V" using 1 2 by linarith
  have "(c - 1 / 2) * U \<le> real_of_int m * U"
    using 3 by (simp add: V_def algebra_simps)
  then have "c - 1 / 2 \<le> real_of_int m"
    using Upos by (rule mult_right_le_imp_le)
  then have "real_of_int (2 ^ 52) - 1 / 2 \<le> real_of_int m" by (simp add: c_def)
  then have "2 ^ 52 \<le> m" by (rule int_le_half_down)
  then have "real_of_int (2 ^ 52) \<le> real_of_int m" by (simp only: of_int_le_iff)
  then have "c \<le> real_of_int m" by (simp add: c_def)
  then have "c * U \<le> real_of_int m * U"
    using Upos by (simp add: mult_right_mono)
  then have "pw e \<le> real_of_int m * U" by (simp only: pe)
  then show ?thesis by (simp only: U_def e_def)
qed

lemma round_half_even_one: "round_half_even k 1 = k"
  by (simp add: round_half_even_def)

lemma py_float_exact:
  assumes "\<bar>n\<bar> < 2 ^ 53"
  shows "py_float n = Inr n"
proof (cases "n = 0")
  case True
  then show ?thesis by (simp add: py_float_def)
next
  case False
  obtain m q where mq: "nearest_double \<bar>n\<bar> 1 = (m, q)" by (cases "nearest_double \<bar>n\<bar> 1")
  have pos: "0 < \<bar>n\<bar>" using False by simp
  have "pw (floor_log2 \<bar>n\<bar> 1) \<le> real_of_int \<bar>n\<bar> / real_of_int 1"
    using pos by (rule floor_log2_bounds) simp
  moreover have "real_of_int \<bar>n\<bar> < pw 53"
    unfolding pw_numeral_53 using assms by (rule real_less_power)
  ultimately have "pw (floor_log2 \<bar>n\<bar> 1) < pw 53" by simp
  then have e: "floor_log2 \<bar>n\<bar> 1 < 53" by (simp only: pw_less)
  have q: "q \<le> 0"
    using nearest_double_quantum [OF mq] e by simp
  then have nq: "nat q = 0" by simp
  have m0: "m = round_half_even (\<bar>n\<bar> * 2 ^ nat (- q)) (1 * 2 ^ nat q)"
    using mq by (auto simp add: nearest_double_def Let_def)
  have m: "m = \<bar>n\<bar> * 2 ^ nat (- q)"
    unfolding m0 nq by (simp add: round_half_even_one)
  have d: "(m * 2 ^ nat q) div 2 ^ nat (- q) = \<bar>n\<bar>"
    by (simp add: m nq)
  have small: "\<not> (2 ^ 1024 \<le> \<bar>n\<bar>)" using assms by simp
  have "py_float n = Inr (sgn n * \<bar>n\<bar>)"
    using False small by (simp add: py_float_def mq d Let_def)
  then show ?thesis by (simp add: mult_sgn_abs)
qed

lemma py_float_large:
  assumes "2 ^ 53 \<le> n"
  shows "\<exists>d. 2 ^ 53 \<le> d \<and> py_float n = (if 2 ^ 1024 \<le> d then Inl OverflowError else Inr d)
            \<and> (2 ^ 1024 \<le> n \<longrightarrow> 2 ^ 1024 \<le> d)
            \<and> (n < 2 ^ 1024 - 2 ^ 970 \<longrightarrow> d < 2 ^ 1024)"
proof -
  have pos: "0 < n"
  proof -
    have "(0::int) < 2 ^ 53" by simp
    then show ?thesis using assms by (rule less_le_trans)
  qed
  have one: "(0::int) < 1" by simp
  obtain m q where mq: "nearest_double n 1 = (m, q)" by (cases "nearest_double n 1")
  define e where "e = floor_log2 n 1"
  have lo: "pw e \<le> real_of_int n"
    using floor_log2_bounds(1) [OF pos one] by (simp add: e_def)
  have hi: "real_of_int n < pw (e + 1)"
    using floor_log2_bounds(2) [OF pos one] by (simp add: e_def)
  have n53: "pw 53 \<le> real_of_int n"
    unfolding pw_numeral_53 using assms by (rule real_ge_power)
  have "pw 53 < pw (e + 1)" using n53 hi by (rule le_less_trans)
  then have "53 < e + 1" by (simp only: pw_less)
  then have e53: "53 \<le> e" by simp
  have q: "q = e - 52"
    using nearest_double_quantum [OF mq] e53 by (simp add: e_def)
  have q1: "1 \<le> q" using q e53 by simp
  then have nq: "nat (- q) = 0" by simp
  define d where "d = m * 2 ^ nat q"
  have dreal: "real_of_int d = real_of_int m * pw q"
    using q1 by (simp add: d_def pw_nat)
  have norm: "- 1022 \<le> floor_log2 n 1" using e53 by (simp add: e_def)
  have ge: "pw e \<le> real_of_int d"
    unfolding dreal e_def using pos one mq norm by (rule nearest_double_ge)
  have err: "\<bar>real_of_int d - real_of_int n\<bar> \<le> pw q / 2"
    using nearest_double_error [OF pos one mq] by (simp add: dreal)
  have d53: "2 ^ 53 \<le> d"
  proof -
    have "pw 53 \<le> pw e" using e53 by (simp only: pw_le)
    then have "pw 53 \<le> real_of_int d" using ge by (rule order_trans)
    then show ?thesis unfolding pw_numeral_53 by (rule int_ge_power)
  qed
  have dd: "(m * 2 ^ nat q) div 2 ^ nat (- q) = d"
    by (simp add: nq d_def)
  have n0: "n \<noteq> 0" and sg: "sgn n = 1" and ab: "\<bar>n\<bar> = n" using pos by simp_all
  have py: "py_float n = (if 2 ^ 1024 \<le> d then Inl OverflowError else Inr d)"
    unfolding py_float_def ab mq using n0 by (simp only: Let_def prod.case dd sg if_False mult_1)
  have over: "2 ^ 1024 \<le> d" if "2 ^ 1024 \<le> n"
  proof -
    have "pw 1024 \<le> real_of_int n"
      unfolding pw_numeral_1024 using that by (rule real_ge_power)
    then have "pw 1024 < pw (e + 1)" using hi by (rule le_less_trans)
    then have "1024 < e + 1" by (simp only: pw_less)
    then have "1024 \<le> e" by simp
    then have "pw 1024 \<le> pw e" by (simp only: pw_le)
    then have "pw 1024 \<le> real_of_int d" using ge by (rule order_trans)
    then show ?thesis unfolding pw_numeral_1024 by (rule int_ge_power)
  qed
  have under: "d < 2 ^ 1024" if "n < 2 ^ 1024 - 2 ^ 970"
  proof -
    define A :: real where "A = 2 ^ 970"
    have A2: "(2::real) ^ 971 = 2 * A" and A1024: "(2::real) ^ 1024 = 2 ^ 54 * A"
      by (simp_all add: A_def)
    have "n + 2 ^ 970 < 2 ^ 1024" using that by simp
    then have "real_of_int (n + 2 ^ 970) < 2 ^ 1024" by (rule real_less_power)
    then have n': "real_of_int n + A < 2 ^ 1024" by (simp add: A_def)
    have Apos: "0 < A" by (simp add: A_def)
    have "real_of_int n < 2 ^ 1024" using n' Apos by linarith
    with lo have "pw e < pw 1024" unfolding pw_numeral_1024 by (rule le_less_trans)
    then have "e < 1024" by (simp only: pw_less)
    then have "q \<le> 971" using q by simp
    then have "pw q \<le> pw 971" by (simp only: pw_le)
    then have "pw q \<le> 2 * A" by (simp only: pw_numeral_971 A2)
    then have "real_of_int d \<le> real_of_int n + A" using err by linarith
    then have "real_of_int d < 2 ^ 1024" using n' by (rule le_less_trans)
    then show ?thesis by (rule int_less_power)
  qed
  show ?thesis
  proof (intro exI conjI impI)
    show "2 ^ 53 \<le> d" by (fact d53)
    show "py_float n = (if 2 ^ 1024 \<le> d then Inl OverflowError else Inr d)" by (fact py)
    show "2 ^ 1024 \<le> d" if "2 ^ 1024 \<le> n" using that by (rule over)
    show "d < 2 ^ 1024" if "n < 2 ^ 1024 - 2 ^ 970" using that by (rule under)
  qed
qed

lemma round_half_even_multiple:
  assumes "0 < d"
  shows "round_half_even (c * d) d = c"
  using assms by (simp add: round_half_even_def)

lemma float_truediv_pos:
  assumes "0 < a" "0 < b"
  shows "float_truediv a b = nearest_double a b"
proof -
  have "a \<noteq> 0" "sgn a = 1" "sgn b = 1" "\<bar>a\<bar> = a" "\<bar>b\<bar> = b" using assms by simp_all
  then show ?thesis
    by (cases "nearest_double a b") (simp add: float_truediv_def)
qed

lemma quotient_exact:
  assumes a: "1 \<le> a" "a < 2 ^ 53" and b: "1 \<le> b" "b < 2 ^ 53"
  shows "ceil_double (float_truediv a b) = \<lceil>real_of_int a / real_of_int b\<rceil>"
proof -
  have apos: "0 < a" and bpos: "0 < b" using a(1) b(1) by simp_all
  obtain m q where mq: "nearest_double a b = (m, q)" by (cases "nearest_double a b")
  define e where "e = floor_log2 a b"
  define X where "X = real_of_int a / real_of_int b"
  define U where "U = pw q"
  define V where "V = real_of_int m * U"
  define k where "k = \<lceil>X\<rceil>"
  have Upos: "0 < U" by (simp add: U_def pw_pos)
  have rb: "0 < real_of_int b" and ra: "0 < real_of_int a" using apos bpos by simp_all
  have rb1: "1 \<le> real_of_int b" using b(1) by simp
  have lo: "pw e \<le> X" unfolding e_def X_def using apos bpos by (rule floor_log2_bounds)
  have hi: "X < pw (e + 1)" unfolding e_def X_def using apos bpos by (rule floor_log2_bounds)
  have err: "\<bar>V - X\<bar> \<le> U / 2"
    unfolding V_def U_def X_def using apos bpos mq by (rule nearest_double_error)
  have cd: "ceil_double (float_truediv a b) = \<lceil>V\<rceil>"
    by (simp only: float_truediv_pos [OF apos bpos] mq ceil_double_eq V_def U_def)
  have a53: "real_of_int a < 2 ^ 53" using a(2) by (rule real_less_power)
  have b53: "real_of_int b < 2 ^ 53" using b(2) by (rule real_less_power)
  have Xb: "X * real_of_int b = real_of_int a" using rb by (simp add: X_def)
  have "1 \<le> X * real_of_int b" using Xb a(1) by simp
  moreover have "X * real_of_int b < X * 2 ^ 53"
  proof -
    have "0 < X" using ra rb by (simp add: X_def)
    then show ?thesis using b53 by simp
  qed
  ultimately have "1 < X * pw 53" by (simp add: pw_numeral_53)
  then have "pw (- 53) < X" using pw_pos [of 53] by (simp add: pw_minus pos_divide_less_eq)
  then have "pw (- 53) < pw (e + 1)" using hi by (rule less_trans)
  then have "- 53 < e + 1" by (simp only: pw_less)
  then have em: "- 53 \<le> e" by simp
  have q: "q = e - 52"
    using nearest_double_quantum [OF mq] em by (simp add: e_def)
  have pe: "pw e = 2 ^ 52 * U"
    using pw_add [of 52 q] by (simp add: q pw_numeral_52 U_def)
  have "real_of_int b * pw e \<le> real_of_int b * X" using lo rb by simp
  then have "real_of_int b * pw e < 2 ^ 53" using Xb a53 by (simp add: mult.commute)
  then have "real_of_int b * U * 2 ^ 52 < 2 * 2 ^ 52" by (simp add: pe mult.commute mult.left_commute)
  then have bU: "real_of_int b * U < 2" by (simp only: mult_less_cancel_right) simp
  have kb: "(k - 1) * b < a" "a \<le> k * b"
  proof -
    have "k - 1 < \<lceil>real_of_int a / real_of_int b\<rceil>" by (simp add: k_def X_def)
    then have "real_of_int (k - 1) < real_of_int a / real_of_int b" by (simp only: less_ceiling_iff)
    then have "real_of_int (k - 1) * real_of_int b < real_of_int a"
      using rb by (simp only: pos_less_divide_eq)
    then have "real_of_int ((k - 1) * b) < real_of_int a" by simp
    then show "(k - 1) * b < a" by (simp only: of_int_less_iff)
    have "\<lceil>real_of_int a / real_of_int b\<rceil> \<le> k" by (simp add: k_def X_def)
    then have "real_of_int a / real_of_int b \<le> real_of_int k" by (simp only: ceiling_le_iff)
    then have "real_of_int a \<le> real_of_int k * real_of_int b"
      using rb by (simp only: pos_divide_le_eq)
    then have "real_of_int a \<le> real_of_int (k * b)" by simp
    then show "a \<le> k * b" by (simp only: of_int_le_iff)
  qed
  have "\<lceil>V\<rceil> = k"
  proof (cases "a = k * b")
    case True
    have Xk: "X = real_of_int k" using rb by (simp add: X_def True)
    have "pw e < pw 53"
    proof -
      have "X \<le> real_of_int a" using rb1 ra by (simp add: X_def divide_le_eq)
      then have "X < 2 ^ 53" using a53 by simp
      then show ?thesis using lo by (simp add: pw_numeral_53)
    qed
    then have "e < 53" by (simp only: pw_less)
    then have q0: "q \<le> 0" using q by simp
    then have nq: "nat q = 0" by simp
    have "m = round_half_even (a * 2 ^ nat (- q)) (b * 2 ^ nat q)"
      using mq by (auto simp add: nearest_double_def Let_def)
    also have "\<dots> = round_half_even ((k * 2 ^ nat (- q)) * b) b"
      by (simp add: nq True ac_simps)
    also have "\<dots> = k * 2 ^ nat (- q)" using bpos by (rule round_half_even_multiple)
    finally have m: "real_of_int m = real_of_int k * pw (- q)"
      using q0 by (simp add: pw_nat)
    have "V = real_of_int k" using pw_pos [of q] by (simp add: V_def U_def m pw_minus)
    then show ?thesis by simp
  next
    case False
    then have "(k - 1) * b + 1 \<le> a" "a + 1 \<le> k * b" using kb by simp_all
    then have "real_of_int ((k - 1) * b + 1) \<le> real_of_int a"
        "real_of_int (a + 1) \<le> real_of_int (k * b)"
      by (simp_all only: of_int_le_iff)
    then have 1: "(real_of_int k - 1) * real_of_int b + 1 \<le> X * real_of_int b"
      and 2: "X * real_of_int b + 1 \<le> real_of_int k * real_of_int b"
      by (simp_all add: Xb)
    define B where "B = real_of_int b"
    define K where "K = real_of_int k"
    have Bpos: "0 < B" using rb by (simp add: B_def)
    have d1: "V - X \<le> U / 2" and d2: "X - V \<le> U / 2" using err by linarith+
    have B0: "0 \<le> B" using Bpos by simp
    have e1: "(V - X) * B \<le> (U / 2) * B" using d1 B0 by (rule mult_right_mono)
    have e2: "(X - V) * B \<le> (U / 2) * B" using d2 B0 by (rule mult_right_mono)
    have half: "(U / 2) * B < 1" using bU by (simp add: B_def mult.commute)
    have "(K - 1) * B < V * B"
      using 1 e2 half by (simp add: B_def K_def algebra_simps)
    then have l: "K - 1 < V" using B0 by (rule mult_right_less_imp_less)
    have "V * B < K * B"
      using 2 e1 half by (simp add: B_def K_def algebra_simps)
    then have u: "V < K" using B0 by (rule mult_right_less_imp_less)
    show ?thesis
    proof (rule ceiling_unique)
      show "real_of_int k - 1 < V" using l by (simp add: K_def)
      show "V \<le> real_of_int k" using u by (simp add: K_def)
    qed
  qed
  then show ?thesis by (simp only: cd k_def X_def)
qed

lemma pw_numeral_m1024: "pw (- 1024) = 1 / 2 ^ 1024"
  by (simp only: pw_minus pw_numeral_1024)

lemma quotient_small:
  assumes a: "1 \<le> a" "a < 2 ^ 53" and b: "2 ^ 53 \<le> b" "b < 2 ^ 1024"
  shows "ceil_double (float_truediv a b) = 1"
proof -
  have apos: "0 < a" using a(1) by simp
  have ab: "a < b" using a(2) b(1) by (rule less_le_trans)
  have bpos: "0 < b" using apos ab by (rule less_trans)
  obtain m q where mq: "nearest_double a b = (m, q)" by (cases "nearest_double a b")
  define e where "e = floor_log2 a b"
  define X where "X = real_of_int a / real_of_int b"
  define U where "U = pw q"
  define V where "V = real_of_int m * U"
  have Upos: "0 < U" by (simp add: U_def pw_pos)
  have rb: "0 < real_of_int b" and ra: "0 < real_of_int a" using apos bpos by simp_all
  have lo: "pw e \<le> X" unfolding e_def X_def using apos bpos by (rule floor_log2_bounds)
  have err: "\<bar>V - X\<bar> \<le> U / 2"
    unfolding V_def U_def X_def using apos bpos mq by (rule nearest_double_error)
  have cd: "ceil_double (float_truediv a b) = \<lceil>V\<rceil>"
    by (simp only: float_truediv_pos [OF apos bpos] mq ceil_double_eq V_def U_def)
  have Xpos: "0 < X" using ra rb by (simp add: X_def)
  have X1: "X < 1" using ab rb by (simp add: X_def)
  have "pw e < pw 0" using lo X1 by (simp add: pw_zero)
  then have e0: "e < 0" by (simp only: pw_less)
  have qmax: "q = max (e - 52) (- 1074)"
    using nearest_double_quantum [OF mq] by (simp add: e_def)
  have q0: "q < 0" using qmax e0 by simp
  have Xb: "X * real_of_int b = real_of_int a" using rb by (simp add: X_def)
  have Xlow: "pw (- 1024) < X"
  proof -
    have "real_of_int b < 2 ^ 1024" using b(2) by (rule real_less_power)
    then have lt: "X * real_of_int b < X * 2 ^ 1024" using Xpos by (simp only: mult_less_cancel_left_pos)
    have "1 \<le> X * real_of_int b" using Xb a(1) by simp
    then have "1 < X * 2 ^ 1024" using lt by (rule le_less_trans)
    then have "1 / 2 ^ 1024 < X" by (simp add: pos_divide_less_eq)
    then show ?thesis by (simp only: pw_numeral_m1024)
  qed
  have UX: "U \<le> X"
  proof (cases "- 1074 \<le> e - 52")
    case True
    then have "q \<le> e" using qmax by simp
    then have "pw q \<le> pw e" by (simp only: pw_le)
    then show ?thesis unfolding U_def using lo by (rule order_trans)
  next
    case False
    then have "q \<le> - 1024" using qmax by simp
    then have "pw q \<le> pw (- 1024)" by (simp only: pw_le)
    then have "pw q < X" using Xlow by (rule le_less_trans)
    then show ?thesis by (simp add: U_def)
  qed
  have Vpos: "0 < V" using err UX Upos by linarith
  define N where "N = (2::int) ^ nat (- q)"
  have NU: "real_of_int N * U = 1"
  proof -
    have "real_of_int N = pw (- q)" using q0 by (simp add: N_def pw_nat)
    then show ?thesis using Upos by (simp add: pw_minus U_def)
  qed
  have "V \<le> 1 + U / 2" using err X1 by linarith
  also have "\<dots> = (real_of_int N + 1 / 2) * U" using NU by (simp add: algebra_simps)
  finally have "real_of_int m * U \<le> (real_of_int N + 1 / 2) * U" by (simp only: V_def)
  then have "real_of_int m \<le> real_of_int N + 1 / 2" using Upos by (rule mult_right_le_imp_le)
  then have "m \<le> N" by (rule int_le_half_up)
  then have "real_of_int m \<le> real_of_int N" by (simp only: of_int_le_iff)
  then have "real_of_int m * U \<le> real_of_int N * U"
    using Upos by (simp add: mult_right_mono)
  then have V1: "V \<le> 1" by (simp only: V_def NU)
  have "\<lceil>V\<rceil> = 1"
  proof (rule ceiling_unique)
    show "real_of_int 1 - 1 < V" using Vpos by simp
    show "V \<le> real_of_int 1" using V1 by simp
  qed
  then show ?thesis by (simp only: cd)
qed

lemma py_float_zero: "py_float 0 = Inr 0"
  by (simp add: py_float_def)

lemma ceil_quotient_overflow:
  assumes "2 ^ 1024 \<le> pp"
  shows "ceil_quotient hits pp = Inl OverflowError"
proof -
  have "(2::int) ^ 53 \<le> 2 ^ 1024" by simp
  then have "2 ^ 53 \<le> pp" using assms by (rule order_trans)
  from py_float_large [OF this] obtain d where
    d: "py_float pp = (if 2 ^ 1024 \<le> d then Inl OverflowError else Inr d)"
       "2 ^ 1024 \<le> pp \<longrightarrow> 2 ^ 1024 \<le> d" by blast
  have "2 ^ 1024 \<le> d" using d(2) assms by blast
  then have "py_float pp = Inl OverflowError" using d(1) by (simp only: if_True)
  then show ?thesis by (simp add: ceil_quotient_def)
qed

lemma ceil_quotient_cases:
  assumes "1 \<le> hits" "hits < 2 ^ 53" "0 < pp"
  shows "(ceil_quotient hits pp = Inl OverflowError \<and> 2 ^ 1024 - 2 ^ 970 \<le> pp)
       \<or> ceil_quotient hits pp = Inr \<lceil>real_of_int hits / real_of_int pp\<rceil>"
proof -
  have "\<bar>hits\<bar> < 2 ^ 53" using assms(1,2) by simp
  then have fh: "py_float hits = Inr hits" by (rule py_float_exact)
  show ?thesis
  proof (cases "pp < 2 ^ 53")
    case True
    then have "\<bar>pp\<bar> < 2 ^ 53" using assms(3) by simp
    then have fp: "py_float pp = Inr pp" by (rule py_float_exact)
    have "1 \<le> pp" using assms(3) by simp
    with assms(1,2) have "ceil_double (float_truediv hits pp) = \<lceil>real_of_int hits / real_of_int pp\<rceil>"
      using True by (rule quotient_exact)
    then have "ceil_quotient hits pp = Inr \<lceil>real_of_int hits / real_of_int pp\<rceil>"
      using assms(3) by (simp add: ceil_quotient_def fh fp)
    then show ?thesis by simp
  next
    case False
    then have big: "2 ^ 53 \<le> pp" by simp
    from py_float_large [OF big] obtain d where
      d: "2 ^ 53 \<le> d" "py_float pp = (if 2 ^ 1024 \<le> d then Inl OverflowError else Inr d)"
         "pp < 2 ^ 1024 - 2 ^ 970 \<longrightarrow> d < 2 ^ 1024" by blast
    show ?thesis
    proof (cases "2 ^ 1024 \<le> d")
      case True
      then have "py_float pp = Inl OverflowError" using d(2) by (simp only: if_True)
      then have "ceil_quotient hits pp = Inl OverflowError" by (simp add: ceil_quotient_def)
      moreover have "2 ^ 1024 - 2 ^ 970 \<le> pp" using True d(3) by linarith
      ultimately show ?thesis by simp
    next
      case dsmall: False
      then have fp: "py_float pp = Inr d" using d(2) by (simp only: if_False)
      have d1024: "d < 2 ^ 1024" using dsmall by simp
      have dn0: "d \<noteq> 0" using d(1) by auto
      have "ceil_double (float_truediv hits d) = 1"
        using assms(1,2) d(1) d1024 by (rule quotient_small)
      then have cq: "ceil_quotient hits pp = Inr 1"
        using dn0 by (simp add: ceil_quotient_def fh fp)
      have "hits < pp" using assms(2) big by (rule less_le_trans)
      then have "real_of_int hits / real_of_int pp \<le> 1" "0 < real_of_int hits / real_of_int pp"
        using assms(1,3) by simp_all
      then have "\<lceil>real_of_int hits / real_of_int pp\<rceil> = 1"
        by (intro ceiling_unique) simp_all
      then show ?thesis using cq by simp
    qed
  qed
qed

lemma ceil_quotient_returns:
  assumes "1 \<le> hits" "hits < 2 ^ 53" "0 < pp" "pp < 2 ^ 1024 - 2 ^ 970"
  shows "ceil_quotient hits pp = Inr \<lceil>real_of_int hits / real_of_int pp\<rceil>"
  using ceil_quotient_cases [OF assms(1,2,3)] assms(4) by linarith

lemma ceil_quotient_zero:
  assumes "\<bar>hits\<bar> < 2 ^ 53"
  shows "ceil_quotient hits 0 = Inl ZeroDivisionError"
  using py_float_exact [OF assms] by (simp add: ceil_quotient_def py_float_zero)

text \<open>
  From \<open>2^53\<close> on \<open>hits\<close> is rounded before the division: \<open>2^53 + 1\<close> objects on
  pages of one object make \<open>2^53\<close> pages.
\<close>

lemma ceil_quotient_rounds: "ceil_quotient (2 ^ 53 + 1) 1 = Inr (2 ^ 53)"
  by code_simp

lemma py_float_threshold:
  "py_float (2 ^ 1024 - 2 ^ 970) = Inl OverflowError \<and>
   py_float (2 ^ 1024 - 2 ^ 970 - 1) = Inr (2 ^ 1024 - 2 ^ 971)"
  by code_simp

section \<open>Facts about the paginator\<close>

lemma cache_ok_init: "cache_ok (Paginator_init ol pp orph allow)"
  by (simp add: cache_ok_def Paginator_init_def)

lemma items_pylist [simp]: "int (length xs) < 2 ^ 53 \<Longrightarrow> items (pylist xs) = xs"
  by (simp add: pylist_inverse)

lemma count_of_small: "count_of p < 2 ^ 53"
  using items [of "object_list p"] by (simp add: count_of_def)

lemma hits_of_pos: "1 \<le> hits_of p"
  by (simp add: hits_of_def)

lemma hits_of_small: "0 \<le> orphans p \<Longrightarrow> hits_of p < 2 ^ 53"
  using count_of_small [of p] by (simp add: hits_of_def)

lemma same_fields_refl: "same_fields p p"
  by (simp add: same_fields_def)

lemma same_fields_trans: "same_fields p q \<Longrightarrow> same_fields q r \<Longrightarrow> same_fields p r"
  by (simp add: same_fields_def)

lemma same_fields_count_of: "same_fields p q \<Longrightarrow> count_of q = count_of p"
  by (simp add: same_fields_def count_of_def)

lemma same_fields_num_pages_of: "same_fields p q \<Longrightarrow> num_pages_of q = num_pages_of p"
  by (simp add: same_fields_def num_pages_of_def hits_of_def count_of_def)

lemma count_of_upd [simp]:
  "count_of (p\<lparr>count_cache := x\<rparr>) = count_of p"
  "count_of (p\<lparr>num_pages_cache := y\<rparr>) = count_of p"
  by (simp_all add: count_of_def)

lemma num_pages_of_upd [simp]:
  "num_pages_of (p\<lparr>count_cache := x\<rparr>) = num_pages_of p"
  "num_pages_of (p\<lparr>num_pages_cache := y\<rparr>) = num_pages_of p"
  by (simp_all add: num_pages_of_def hits_of_def)

lemma cache_ok_iff:
  "cache_ok p \<longleftrightarrow>
     (\<forall>c. count_cache p = Some c \<longrightarrow> c = count_of p) \<and>
     (\<forall>n. num_pages_cache p = Some n \<longrightarrow> num_pages_of p = Inr n)"
  by (simp add: cache_ok_def split: option.splits)

lemma get_count_fst: "cache_ok p \<Longrightarrow> fst (get_count p) = count_of p"
  by (auto simp add: get_count_def cache_ok_iff count_of_def Let_def split: option.splits)

lemma get_count_same: "same_fields p (snd (get_count p))"
  by (simp add: get_count_def same_fields_def Let_def split: option.splits)

lemma get_count_cache_ok: "cache_ok p \<Longrightarrow> cache_ok (snd (get_count p))"
  by (auto simp add: get_count_def cache_ok_iff Let_def count_of_def split: option.splits)

lemma get_count_eq:
  "cache_ok p \<Longrightarrow> \<exists>q. get_count p = (count_of p, q) \<and> same_fields p q \<and> cache_ok q"
  using get_count_fst [of p] get_count_same [of p] get_count_cache_ok [of p]
  by (cases "get_count p") simp

lemma get_num_pages_eq:
  assumes "cache_ok p"
  shows "\<exists>q. get_num_pages p = (num_pages_of p, q) \<and> same_fields p q \<and> cache_ok q"
proof (cases "num_pages_cache p")
  case (Some n)
  with assms show ?thesis
    by (simp add: get_num_pages_def cache_ok_iff same_fields_def)
next
  case None
  from get_count_eq [OF assms] obtain p1 where
    p1: "get_count p = (count_of p, p1)" "same_fields p p1" "cache_ok p1" by blast
  from get_count_eq [OF p1(3)] obtain p2 where
    p2: "get_count p1 = (count_of p1, p2)" "same_fields p1 p2" "cache_ok p2" by blast
  have sf: "same_fields p p2" using p1(2) p2(2) by (rule same_fields_trans)
  have c1: "count_of p1 = count_of p" using p1(2) by (rule same_fields_count_of)
  show ?thesis
  proof (cases "count_of p = 0 \<and> \<not> allow_empty_first_page p")
    case True
    have "get_num_pages p = (Inr 0, p1\<lparr>num_pages_cache := Some 0\<rparr>)"
      using None p1 True by (simp add: get_num_pages_def same_fields_def)
    moreover have np0: "num_pages_of p = Inr 0" using True by (simp add: num_pages_of_def)
    moreover have "same_fields p (p1\<lparr>num_pages_cache := Some 0\<rparr>)"
      using p1(2) by (simp add: same_fields_def)
    moreover have "cache_ok (p1\<lparr>num_pages_cache := Some 0\<rparr>)"
      using p1(3) \<open>num_pages_of p = Inr 0\<close> same_fields_num_pages_of [OF p1(2)]
      by (simp add: cache_ok_iff)
    ultimately show ?thesis by simp
  next
    case False
    define r where "r = ceil_quotient (hits_of p) (per_page p)"
    have npr: "num_pages_of p = r"
      using False by (auto simp add: num_pages_of_def r_def)
    have hp: "max 1 (count_of p - orphans p) = hits_of p" by (simp add: hits_of_def)
    show ?thesis
    proof (cases r)
      case (Inl e)
      then have cq: "ceil_quotient (hits_of p) (per_page p) = Inl e" by (simp add: r_def)
      have "get_num_pages p = (Inl e, p2)"
        using None p1 p2 False sf c1
        by (auto simp add: get_num_pages_def same_fields_def hp cq Let_def)
      moreover have "num_pages_of p = Inl e" using npr Inl by simp
      ultimately show ?thesis using sf p2(3) by simp
    next
      case (Inr n)
      then have cq: "ceil_quotient (hits_of p) (per_page p) = Inr n" by (simp add: r_def)
      have "get_num_pages p = (Inr n, p2\<lparr>num_pages_cache := Some n\<rparr>)"
        using None p1 p2 False sf c1
        by (auto simp add: get_num_pages_def same_fields_def hp cq Let_def)
      moreover have "num_pages_of p = Inr n" using npr Inr by simp
      moreover have "same_fields p (p2\<lparr>num_pages_cache := Some n\<rparr>)"
        using sf by (simp add: same_fields_def)
      moreover have "cache_ok (p2\<lparr>num_pages_cache := Some n\<rparr>)"
        using p2(3) \<open>num_pages_of p = Inr n\<close> same_fields_num_pages_of [OF sf]
        by (simp add: cache_ok_iff)
      ultimately show ?thesis by simp
    qed
  qed
qed

lemma get_num_pages_fst: "cache_ok p \<Longrightarrow> fst (get_num_pages p) = num_pages_of p"
  using get_num_pages_eq [of p] by auto

lemma ceiling_less_iff_mult:
  fixes a b k :: int
  assumes "0 < b"
  shows "k < \<lceil>real_of_int a / real_of_int b\<rceil> \<longleftrightarrow> k * b < a"
proof -
  have "k < \<lceil>real_of_int a / real_of_int b\<rceil> \<longleftrightarrow> real_of_int k < real_of_int a / real_of_int b"
    by (simp add: less_ceiling_iff)
  also have "\<dots> \<longleftrightarrow> real_of_int k * real_of_int b < real_of_int a"
    using assms by (simp add: pos_less_divide_eq)
  also have "\<dots> \<longleftrightarrow> k * b < a"
    by (metis of_int_less_iff of_int_mult)
  finally show ?thesis .
qed

lemma ceiling_le_iff_mult:
  fixes a b k :: int
  assumes "0 < b"
  shows "\<lceil>real_of_int a / real_of_int b\<rceil> \<le> k \<longleftrightarrow> a \<le> k * b"
  using ceiling_less_iff_mult [OF assms, of k a] by linarith

lemma num_pages_of_value:
  assumes "0 < per_page p" "hits_of p < 2 ^ 53"
    "\<not> (count_of p = 0 \<and> \<not> allow_empty_first_page p)" "num_pages_of p = Inr n"
  shows "n = \<lceil>real_of_int (hits_of p) / real_of_int (per_page p)\<rceil>"
proof -
  have "ceil_quotient (hits_of p) (per_page p) = Inr n"
    using assms(3,4) by (auto simp add: num_pages_of_def)
  with ceil_quotient_cases [OF hits_of_pos assms(2,1)] show ?thesis by simp
qed

lemma num_pages_of_returns:
  assumes "0 < per_page p" "per_page p < 2 ^ 1024 - 2 ^ 970" "hits_of p < 2 ^ 53"
  shows "num_pages_of p =
           Inr (if count_of p = 0 \<and> \<not> allow_empty_first_page p then 0
                else \<lceil>real_of_int (hits_of p) / real_of_int (per_page p)\<rceil>)"
  using ceil_quotient_returns [OF hits_of_pos assms(3,1,2)] by (simp add: num_pages_of_def)

lemma num_pages_of_overflow:
  assumes "2 ^ 1024 \<le> per_page p" "\<not> (count_of p = 0 \<and> \<not> allow_empty_first_page p)"
  shows "num_pages_of p = Inl OverflowError"
  using ceil_quotient_overflow [OF assms(1)] assms(2) by (auto simp add: num_pages_of_def)

lemma num_pages_of_bounds:
  assumes "0 < per_page p" "hits_of p < 2 ^ 53"
    "\<not> (count_of p = 0 \<and> \<not> allow_empty_first_page p)" "num_pages_of p = Inr n"
  shows "1 \<le> n" and "(n - 1) * per_page p < hits_of p" and "hits_of p \<le> n * per_page p"
proof -
  have n: "n = \<lceil>real_of_int (hits_of p) / real_of_int (per_page p)\<rceil>"
    using assms by (rule num_pages_of_value)
  have "n - 1 < n" by simp
  then show lo: "(n - 1) * per_page p < hits_of p"
    unfolding n using ceiling_less_iff_mult [OF assms(1)] by blast
  have "n \<le> n" by simp
  then show hi: "hits_of p \<le> n * per_page p"
    unfolding n using ceiling_le_iff_mult [OF assms(1)] by blast
  have "1 \<le> hits_of p" by (rule hits_of_pos)
  then have "0 < n * per_page p" using hi by linarith
  then have "0 < n" using assms(1) by (simp add: zero_less_mult_iff)
  then show "1 \<le> n" by simp
qed

lemma validate_number_eq:
  assumes "cache_ok p"
  shows "\<exists>q. validate_number p v = (validate_of p v, q) \<and> same_fields p q \<and> cache_ok q"
proof (cases "py_int v")
  case (Inl e)
  then show ?thesis using assms
    by (simp add: validate_number_def validate_of_def same_fields_refl)
next
  case (Inr n)
  show ?thesis
  proof (cases "n < 1")
    case True
    then show ?thesis using Inr assms
      by (simp add: validate_number_def validate_of_def same_fields_refl)
  next
    case False
    from get_num_pages_eq [OF assms] obtain q where
      q: "get_num_pages p = (num_pages_of p, q)" "same_fields p q" "cache_ok q" by blast
    have "allow_empty_first_page q = allow_empty_first_page p"
      using q(2) by (simp add: same_fields_def)
    then have "validate_number p v = (validate_of p v, q)"
      using Inr False q(1)
      by (auto simp add: validate_number_def validate_of_def split: sum.splits)
    then show ?thesis using q by blast
  qed
qed

lemma page_eq:
  assumes "cache_ok p" "validate_of p v = Inr n"
  shows "\<exists>q. page p v =
              (Inr (get_page
                 (py_slice (items (object_list p)) ((n - 1) * per_page p)
                    (if (n - 1) * per_page p + per_page p + orphans p \<ge> count_of p
                     then count_of p else (n - 1) * per_page p + per_page p)) n q), q)
            \<and> same_fields p q \<and> cache_ok q"
proof -
  from validate_number_eq [OF assms(1)] obtain p1 where
    p1: "validate_number p v = (validate_of p v, p1)" "same_fields p p1" "cache_ok p1" by blast
  from get_count_eq [OF p1(3)] obtain p2 where
    p2: "get_count p1 = (count_of p1, p2)" "same_fields p1 p2" "cache_ok p2" by blast
  from get_count_eq [OF p2(3)] obtain p3 where
    p3: "get_count p2 = (count_of p2, p3)" "same_fields p2 p3" "cache_ok p3" by blast
  have s2: "same_fields p p2" using p1(2) p2(2) by (rule same_fields_trans)
  have s3: "same_fields p p3" using s2 p3(2) by (rule same_fields_trans)
  have c1: "count_of p1 = count_of p" using p1(2) by (rule same_fields_count_of)
  have c2: "count_of p2 = count_of p" using s2 by (rule same_fields_count_of)
  show ?thesis
  proof (cases "(n - 1) * per_page p + per_page p + orphans p \<ge> count_of p")
    case True
    have "page p v = (Inr (get_page (py_slice (items (object_list p)) ((n - 1) * per_page p) (count_of p)) n p3), p3)"
      using p1 p2 p3 assms(2) True c1 c2 s2 s3
      by (simp add: page_def same_fields_def Let_def)
    then show ?thesis using True s3 p3(3) by (intro exI [of _ p3]) simp
  next
    case False
    have "page p v = (Inr (get_page (py_slice (items (object_list p)) ((n - 1) * per_page p) ((n - 1) * per_page p + per_page p)) n p2), p2)"
      using p1 p2 assms(2) False c1 c2 s2
      by (simp add: page_def same_fields_def Let_def)
    then show ?thesis using False s2 p2(3) by (intro exI [of _ p2]) simp
  qed
qed

section \<open>The number of pages\<close>

lemma get_num_pages_value:
  assumes "cache_ok p" "0 < per_page p" "per_page p < 2 ^ 1024 - 2 ^ 970" "hits_of p < 2 ^ 53"
  shows "fst (get_num_pages p) =
           Inr (if count_of p = 0 \<and> \<not> allow_empty_first_page p then 0
                else \<lceil>real_of_int (hits_of p) / real_of_int (per_page p)\<rceil>)"
  using get_num_pages_fst [OF assms(1)] num_pages_of_returns [OF assms(2,3,4)] by simp

lemma get_num_pages_overflow:
  assumes "cache_ok p" "2 ^ 1024 \<le> per_page p"
    "\<not> (count_of p = 0 \<and> \<not> allow_empty_first_page p)"
  shows "fst (get_num_pages p) = Inl OverflowError"
  using get_num_pages_fst [OF assms(1)] num_pages_of_overflow [OF assms(2,3)] by simp

text \<open>
  Claim C1 gives \<open>num_pages\<close> for every paginator with \<open>per_page > 0\<close>. The quotient is
  computed in double precision, and \<open>float(self.per_page)\<close> raises \<open>OverflowError\<close> for
  a \<open>per_page\<close> beyond the doubles: with 23 objects, 5 orphans and \<open>per_page = 2^1024\<close>
  the claim's value is 1, and \<open>num_pages\<close> raises.
\<close>

theorem num_pages_raises_OverflowError:
  "0 < per_page (Paginator_init (pylist [0..<23::nat]) (2 ^ 1024) 5 True)
   \<and> fst (get_num_pages (Paginator_init (pylist [0..<23::nat]) (2 ^ 1024) 5 True))
       = Inl OverflowError"
proof -
  have c: "cache_ok (Paginator_init (pylist [0..<23::nat]) (2 ^ 1024) 5 True)"
    by (rule cache_ok_init)
  have pp: "0 < per_page (Paginator_init (pylist [0..<23::nat]) (2 ^ 1024) 5 True)"
    by (simp add: Paginator_init_def)
  have big: "2 ^ 1024 \<le> per_page (Paginator_init (pylist [0..<23::nat]) (2 ^ 1024) 5 True)"
    by (simp add: Paginator_init_def)
  have ne: "\<not> (count_of (Paginator_init (pylist [0..<23::nat]) (2 ^ 1024) 5 True) = 0
              \<and> \<not> allow_empty_first_page (Paginator_init (pylist [0..<23::nat]) (2 ^ 1024) 5 True))"
    by (simp add: Paginator_init_def)
  have "fst (get_num_pages (Paginator_init (pylist [0..<23::nat]) (2 ^ 1024) 5 True))
          = Inl OverflowError"
    using c big ne by (rule get_num_pages_overflow)
  with pp show ?thesis by blast
qed

text \<open>
  Claim C1, amended. For a paginator with \<open>0 < per_page < 2^1024 - 2^970\<close> (the
  integers that \<open>float\<close> converts) and \<open>max(1, count - orphans) < 2^53\<close> (which holds
  whenever \<open>orphans\<close> is not negative), \<open>num_pages\<close> is \<open>0\<close> if the collection is empty
  and an empty first page is not allowed, and otherwise the ceiling of
  \<open>max(1, count - orphans) / per_page\<close>; it is \<open>0\<close> only in the first case.
\<close>

theorem num_pages_formula:
  assumes "cache_ok p" and "0 < per_page p" and "per_page p < 2 ^ 1024 - 2 ^ 970"
    and "max 1 (int (length (items (object_list p))) - orphans p) < 2 ^ 53"
  shows "fst (get_num_pages p) =
           Inr (if int (length (items (object_list p))) = 0 \<and> \<not> allow_empty_first_page p then 0
                else \<lceil>real_of_int (max 1 (int (length (items (object_list p))) - orphans p))
                        / real_of_int (per_page p)\<rceil>)
         \<and> (fst (get_num_pages p) = Inr 0 \<longrightarrow>
              int (length (items (object_list p))) = 0 \<and> \<not> allow_empty_first_page p)"
proof -
  have eq: "fst (get_num_pages p) = num_pages_of p"
    using assms(1) by (rule get_num_pages_fst)
  have hs: "hits_of p < 2 ^ 53"
    using assms(4) by (simp add: hits_of_def count_of_def)
  have first: "num_pages_of p =
           Inr (if int (length (items (object_list p))) = 0 \<and> \<not> allow_empty_first_page p then 0
                else \<lceil>real_of_int (max 1 (int (length (items (object_list p))) - orphans p))
                        / real_of_int (per_page p)\<rceil>)"
    using num_pages_of_returns [OF assms(2,3) hs] by (simp add: hits_of_def count_of_def)
  have second: "int (length (items (object_list p))) = 0 \<and> \<not> allow_empty_first_page p"
    if z: "num_pages_of p = Inr 0"
  proof (rule ccontr)
    assume "\<not> (int (length (items (object_list p))) = 0 \<and> \<not> allow_empty_first_page p)"
    then have "\<not> (count_of p = 0 \<and> \<not> allow_empty_first_page p)"
      by (simp add: count_of_def)
    from num_pages_of_bounds(1) [OF assms(2) hs this z] show False by simp
  qed
  show ?thesis
    unfolding eq using first second by blast
qed

theorem num_pages_formula_witness:
  "cache_ok (Paginator_init (pylist [0..<23::nat]) 10 5 True)
   \<and> 0 < per_page (Paginator_init (pylist [0..<23::nat]) 10 5 True)
   \<and> per_page (Paginator_init (pylist [0..<23::nat]) 10 5 True) < 2 ^ 1024 - 2 ^ 970
   \<and> max 1 (int (length (items (object_list (Paginator_init (pylist [0..<23::nat]) 10 5 True))))
            - orphans (Paginator_init (pylist [0..<23::nat]) 10 5 True)) < 2 ^ 53
   \<and> fst (get_num_pages (Paginator_init (pylist [0..<23::nat]) 10 5 True)) = Inr 2"
proof -
  have c: "cache_ok (Paginator_init (pylist [0..<23::nat]) 10 5 True)"
    by (rule cache_ok_init)
  have pp: "0 < per_page (Paginator_init (pylist [0..<23::nat]) 10 5 True)"
    by (simp add: Paginator_init_def)
  have fl: "per_page (Paginator_init (pylist [0..<23::nat]) 10 5 True) < 2 ^ 1024 - 2 ^ 970"
    by (simp add: Paginator_init_def)
  have hs: "max 1 (int (length (items (object_list (Paginator_init (pylist [0..<23::nat]) 10 5 True))))
              - orphans (Paginator_init (pylist [0..<23::nat]) 10 5 True)) < 2 ^ 53"
    by (simp add: Paginator_init_def)
  have "fst (get_num_pages (Paginator_init (pylist [0..<23::nat]) 10 5 True)) = Inr 2"
    using num_pages_formula [OF c pp fl hs] by (simp add: Paginator_init_def)
  with c pp fl hs show ?thesis by blast
qed

text \<open>
  Beyond the bound on \<open>max(1, count - orphans)\<close> the formula fails as well: one
  object, pages of one object and \<open>orphans = -2^53\<close> make \<open>2^53 + 1\<close> hits, which
  \<open>float\<close> rounds to \<open>2^53\<close>. A \<open>per_page\<close> of zero raises
  \<open>ZeroDivisionError\<close>.
\<close>

lemma num_pages_rounds_hits:
  "fst (get_num_pages (Paginator_init (pylist [0::nat]) 1 (- (2 ^ 53)) True)) = Inr (2 ^ 53)"
proof -
  have "num_pages_of (Paginator_init (pylist [0::nat]) 1 (- (2 ^ 53)) True)
          = ceil_quotient (2 ^ 53 + 1) 1"
    by (simp add: num_pages_of_def hits_of_def count_of_def Paginator_init_def)
  then show ?thesis
    using get_num_pages_fst [OF cache_ok_init, of "pylist [0::nat]" 1 "- (2 ^ 53)" True]
    by (simp only: ceil_quotient_rounds)
qed

lemma num_pages_zero_per_page:
  assumes "cache_ok p" "per_page p = 0" "0 \<le> orphans p"
    "\<not> (count_of p = 0 \<and> \<not> allow_empty_first_page p)"
  shows "fst (get_num_pages p) = Inl ZeroDivisionError"
proof -
  have "\<bar>hits_of p\<bar> < 2 ^ 53"
    using hits_of_small [OF assms(3)] hits_of_pos [of p] by simp
  then have "ceil_quotient (hits_of p) 0 = Inl ZeroDivisionError" by (rule ceil_quotient_zero)
  then have "num_pages_of p = Inl ZeroDivisionError"
    using assms(2,4) by (auto simp add: num_pages_of_def)
  then show ?thesis using get_num_pages_fst [OF assms(1)] by simp
qed

section \<open>Validating a page number\<close>

lemma validate_number_fst: "cache_ok p \<Longrightarrow> fst (validate_number p v) = validate_of p v"
  using validate_number_eq [of p v] by auto

lemma validate_of_Inr:
  assumes "num_pages_of p = Inr np"
  shows "validate_of p v =
           (case py_int v of
              Inl e \<Rightarrow> if e = TypeError \<or> e = ValueError then Inl PageNotAnInteger else Inl e
            | Inr n \<Rightarrow>
                if n < 1 then Inl EmptyPage
                else if n > np \<and> \<not> (n = 1 \<and> allow_empty_first_page p) then Inl EmptyPage
                else Inr n)"
  using assms by (simp add: validate_of_def split: sum.splits)

lemma validate_of_range:
  assumes "0 < per_page p" "0 \<le> orphans p" "validate_of p v = Inr n"
  shows "\<exists>np. num_pages_of p = Inr np \<and> 1 \<le> n \<and> n \<le> np"
proof -
  from assms(3) obtain m where m: "py_int v = Inr m"
    by (cases "py_int v") (simp_all add: validate_of_def split: if_splits)
  have m1: "1 \<le> m"
    using assms(3) m by (cases "m < 1") (simp_all add: validate_of_def)
  obtain np where np: "num_pages_of p = Inr np"
    using assms(3) m m1 by (cases "num_pages_of p") (simp_all add: validate_of_def)
  have hs: "hits_of p < 2 ^ 53" using assms(2) by (rule hits_of_small)
  have v: "(if m < 1 then Inl EmptyPage
            else if m > np \<and> \<not> (m = 1 \<and> allow_empty_first_page p) then Inl EmptyPage
            else Inr m) = (Inr n :: error + int)"
    using assms(3) validate_of_Inr [OF np, of v] m by simp
  have mn: "m = n" using v by (simp split: if_splits)
  have "m \<le> np"
  proof (rule ccontr)
    assume "\<not> m \<le> np"
    then have gt: "m > np" by simp
    with v m1 have a: "m = 1 \<and> allow_empty_first_page p" by (simp split: if_splits)
    then have "\<not> (count_of p = 0 \<and> \<not> allow_empty_first_page p)" by simp
    from num_pages_of_bounds(1) [OF assms(1) hs this np] have "1 \<le> np" .
    with gt a show False by simp
  qed
  with np m1 mn show ?thesis by auto
qed

text \<open>
  Claim C3 says that \<open>validate_number\<close> raises \<open>PageNotAnInteger\<close> for every number
  that does not coerce to an integer. The method catches \<open>TypeError\<close> and \<open>ValueError\<close>
  only: \<open>int(float('inf'))\<close> raises \<open>OverflowError\<close>, and that is the exception the
  caller gets.
\<close>

theorem validate_number_raises_OverflowError:
  "py_int PyInf = Inl OverflowError
   \<and> fst (validate_number (Paginator_init (pylist [0..<23::nat]) 10 5 True) PyInf)
       = Inl OverflowError"
  by (simp add: validate_number_def)

text \<open>
  Claim C3, amended. \<open>validate_number\<close> raises \<open>PageNotAnInteger\<close> when \<open>int(number)\<close>
  raises \<open>TypeError\<close> or \<open>ValueError\<close>, and lets any other exception of \<open>int\<close> through;
  it raises \<open>EmptyPage\<close> when the coerced number is below 1; otherwise it reads
  \<open>num_pages\<close>, lets its exception through if it raises, raises \<open>EmptyPage\<close> when the
  number exceeds \<open>num_pages\<close> unless it is 1 and an empty first page is allowed, and
  returns the coerced number in every other case. When an empty first page is allowed,
  page 1 is accepted whatever the count, provided \<open>num_pages\<close> can be computed
  (\<open>0 < per_page < 2^1024 - 2^970\<close> and \<open>max(1, count - orphans) < 2^53\<close>).
\<close>

theorem validate_number_cases:
  assumes "cache_ok p"
  shows "fst (validate_number p v) =
           (case py_int v of
              Inl e \<Rightarrow> if e = TypeError \<or> e = ValueError then Inl PageNotAnInteger else Inl e
            | Inr n \<Rightarrow>
                if n < 1 then Inl EmptyPage
                else (case fst (get_num_pages p) of
                        Inl e \<Rightarrow> Inl e
                      | Inr np \<Rightarrow>
                          if n > np \<and> \<not> (n = 1 \<and> allow_empty_first_page p) then Inl EmptyPage
                          else Inr n))
         \<and> (allow_empty_first_page p \<and> 0 < per_page p \<and> per_page p < 2 ^ 1024 - 2 ^ 970 \<and>
              max 1 (int (length (items (object_list p))) - orphans p) < 2 ^ 53
            \<longrightarrow> fst (validate_number p (PyInt 1)) = Inr 1)"
proof -
  have a: "fst (validate_number p v) =
           (case py_int v of
              Inl e \<Rightarrow> if e = TypeError \<or> e = ValueError then Inl PageNotAnInteger else Inl e
            | Inr n \<Rightarrow>
                if n < 1 then Inl EmptyPage
                else (case fst (get_num_pages p) of
                        Inl e \<Rightarrow> Inl e
                      | Inr np \<Rightarrow>
                          if n > np \<and> \<not> (n = 1 \<and> allow_empty_first_page p) then Inl EmptyPage
                          else Inr n))"
    by (simp only: validate_number_fst [OF assms] get_num_pages_fst [OF assms] validate_of_def)
  have b: "fst (validate_number p (PyInt 1)) = Inr 1"
    if h: "allow_empty_first_page p \<and> 0 < per_page p \<and> per_page p < 2 ^ 1024 - 2 ^ 970 \<and>
           max 1 (int (length (items (object_list p))) - orphans p) < 2 ^ 53"
  proof -
    have hs: "hits_of p < 2 ^ 53" using h by (simp add: hits_of_def count_of_def)
    from h have pp: "0 < per_page p" and fl: "per_page p < 2 ^ 1024 - 2 ^ 970"
      and al: "allow_empty_first_page p" by simp_all
    from num_pages_of_returns [OF pp fl hs] obtain np where np: "num_pages_of p = Inr np"
      by blast
    have "validate_of p (PyInt 1) = Inr 1"
      using validate_of_Inr [OF np, of "PyInt 1"] al by simp
    then show ?thesis using validate_number_fst [OF assms, of "PyInt 1"] by simp
  qed
  from a b show ?thesis by blast
qed

theorem validate_number_cases_witness:
  "cache_ok (Paginator_init (pylist ([] :: nat list)) 10 0 True)
   \<and> allow_empty_first_page (Paginator_init (pylist ([] :: nat list)) 10 0 True)
   \<and> 0 < per_page (Paginator_init (pylist ([] :: nat list)) 10 0 True)
   \<and> per_page (Paginator_init (pylist ([] :: nat list)) 10 0 True) < 2 ^ 1024 - 2 ^ 970
   \<and> max 1 (int (length (items (object_list (Paginator_init (pylist ([] :: nat list)) 10 0 True))))
            - orphans (Paginator_init (pylist ([] :: nat list)) 10 0 True)) < 2 ^ 53
   \<and> fst (validate_number (Paginator_init (pylist ([] :: nat list)) 10 0 True) (PyInt 1)) = Inr 1
   \<and> fst (validate_number (Paginator_init (pylist ([] :: nat list)) 10 0 True) PyNone)
       = Inl PageNotAnInteger
   \<and> fst (validate_number (Paginator_init (pylist ([] :: nat list)) 10 0 True) (PyInt 0))
       = Inl EmptyPage"
proof -
  have c: "cache_ok (Paginator_init (pylist ([] :: nat list)) 10 0 True)"
    by (rule cache_ok_init)
  have h: "allow_empty_first_page (Paginator_init (pylist ([] :: nat list)) 10 0 True)
           \<and> 0 < per_page (Paginator_init (pylist ([] :: nat list)) 10 0 True)
           \<and> per_page (Paginator_init (pylist ([] :: nat list)) 10 0 True) < 2 ^ 1024 - 2 ^ 970
           \<and> max 1 (int (length (items (object_list (Paginator_init (pylist ([] :: nat list)) 10 0 True))))
                    - orphans (Paginator_init (pylist ([] :: nat list)) 10 0 True)) < 2 ^ 53"
    by (simp add: Paginator_init_def)
  have one: "fst (validate_number (Paginator_init (pylist ([] :: nat list)) 10 0 True) (PyInt 1)) = Inr 1"
    using validate_number_cases [OF c, of "PyInt 1"] h by blast
  have none: "fst (validate_number (Paginator_init (pylist ([] :: nat list)) 10 0 True) PyNone)
                = Inl PageNotAnInteger"
    using validate_number_cases [OF c, of PyNone] by simp
  have zero: "fst (validate_number (Paginator_init (pylist ([] :: nat list)) 10 0 True) (PyInt 0))
                = Inl EmptyPage"
    using validate_number_cases [OF c, of "PyInt 0"] by simp
  from c h one none zero show ?thesis by blast
qed

section \<open>Slicing out a page\<close>

lemma py_slice_in_range:
  assumes "0 \<le> lo" "lo \<le> hi" "hi \<le> int (length xs)"
  shows "py_slice xs lo hi = take (nat (hi - lo)) (drop (nat lo) xs)"
    and "length (py_slice xs lo hi) = nat (hi - lo)"
proof -
  have l: "slice_bound (int (length xs)) lo = lo"
    using assms by (simp add: slice_bound_def)
  have h: "slice_bound (int (length xs)) hi = hi"
    using assms by (simp add: slice_bound_def)
  show eq: "py_slice xs lo hi = take (nat (hi - lo)) (drop (nat lo) xs)"
    by (simp add: py_slice_def l h)
  show "length (py_slice xs lo hi) = nat (hi - lo)"
    unfolding eq using assms by simp
qed

lemma page_bounds:
  assumes "0 < per_page p" "0 \<le> orphans p" "num_pages_of p = Inr np" "1 \<le> n" "n \<le> np"
  shows "(n - 1) * per_page p \<le> count_of p"
    and "n < np \<longrightarrow> n * per_page p < count_of p - orphans p"
    and "1 \<le> count_of p \<longrightarrow> (n - 1) * per_page p < count_of p"
proof -
  have ne: "\<not> (count_of p = 0 \<and> \<not> allow_empty_first_page p)"
  proof
    assume "count_of p = 0 \<and> \<not> allow_empty_first_page p"
    then have "num_pages_of p = Inr 0" by (simp add: num_pages_of_def)
    with assms(3,4,5) show False by simp
  qed
  have lo: "(np - 1) * per_page p < hits_of p"
    using assms(1) hits_of_small [OF assms(2)] ne assms(3) by (rule num_pages_of_bounds(2))
  have c0: "0 \<le> count_of p" by (simp add: count_of_def)
  have mono: "k * per_page p \<le> (np - 1) * per_page p" if "k \<le> np - 1" for k
    using that assms(1) by (simp add: mult_right_mono)
  have below: "k * per_page p < hits_of p" if "k \<le> np - 1" for k
    using mono [OF that] lo by linarith
  have b1: "(n - 1) * per_page p < hits_of p"
    using below [of "n - 1"] assms(5) by simp
  have pos: "0 \<le> (n - 1) * per_page p"
    using assms(1,4) by simp
  show "(n - 1) * per_page p \<le> count_of p"
    using b1 pos c0 assms(2) by (simp add: hits_of_def max_def split: if_splits)
  show "1 \<le> count_of p \<longrightarrow> (n - 1) * per_page p < count_of p"
    using b1 pos c0 assms(2) by (simp add: hits_of_def max_def split: if_splits)
  show "n < np \<longrightarrow> n * per_page p < count_of p - orphans p"
  proof
    assume "n < np"
    then have b2: "n * per_page p < hits_of p" using below [of n] by simp
    have "1 * 1 \<le> n * per_page p"
      using assms(1,4) by (intro mult_mono) simp_all
    with b2 show "n * per_page p < count_of p - orphans p"
      by (simp add: hits_of_def max_def split: if_splits)
  qed
qed

lemma get_page_sel [simp]:
  "page_object_list (get_page ol n q) = ol"
  "number (get_page ol n q) = n"
  "paginator (get_page ol n q) = q"
  by (simp_all add: get_page_def)

text \<open>
  Claim C2. For a valid page number \<open>n\<close>, \<open>page(n)\<close> returns a page with that number
  whose items are the slice \<open>[bottom, top)\<close> of the collection, with
  \<open>bottom = (n - 1) * per_page\<close> and \<open>top = bottom + per_page\<close>, clamped to \<open>count\<close>
  when \<open>top + orphans >= count\<close>. The bounds lie within the collection, so the slice has
  exactly \<open>top - bottom\<close> items. With 23 items, 10 per page and 5 orphans, page 2 holds
  the items at indices 10 to 22 and there are 2 pages.
\<close>

theorem page_slice:
  assumes "cache_ok p" and "0 < per_page p" and "0 \<le> orphans p"
    and "fst (validate_number p v) = Inr n"
  shows "\<exists>pg bottom top.
           fst (page p v) = Inr pg \<and> number pg = n \<and>
           bottom = (n - 1) * per_page p \<and>
           top = (if bottom + per_page p + orphans p \<ge> int (length (items (object_list p)))
                  then int (length (items (object_list p))) else bottom + per_page p) \<and>
           page_object_list pg = py_slice (items (object_list p)) bottom top \<and>
           0 \<le> bottom \<and> bottom \<le> top \<and> top \<le> int (length (items (object_list p))) \<and>
           page_object_list pg = take (nat (top - bottom)) (drop (nat bottom) (items (object_list p))) \<and>
           int (length (page_object_list pg)) = top - bottom"
proof -
  define bottom where "bottom = (n - 1) * per_page p"
  define top where "top = (if bottom + per_page p + orphans p \<ge> count_of p
                          then count_of p else bottom + per_page p)"
  have v: "validate_of p v = Inr n"
    using validate_number_fst [OF assms(1), of v] assms(4) by simp
  from validate_of_range [OF assms(2,3) v] obtain np where
    np: "num_pages_of p = Inr np" "1 \<le> n" "n \<le> np" by blast
  from page_eq [OF assms(1) v] obtain q where
    q: "page p v = (Inr (get_page (py_slice (items (object_list p)) bottom top) n q), q)"
    unfolding bottom_def top_def by blast
  have b0: "0 \<le> bottom"
    unfolding bottom_def using assms(2) np(2) by simp
  have bc: "bottom \<le> count_of p"
    unfolding bottom_def using page_bounds(1) [OF assms(2,3) np] .
  have bt: "bottom \<le> top"
    unfolding top_def using bc assms(2) by simp
  have tc: "top \<le> count_of p"
    unfolding top_def using assms(3) by simp
  have tc': "top \<le> int (length (items (object_list p)))"
    using tc by (simp add: count_of_def)
  have top': "top = (if bottom + per_page p + orphans p \<ge> int (length (items (object_list p)))
                    then int (length (items (object_list p))) else bottom + per_page p)"
    unfolding top_def count_of_def ..
  note sl = py_slice_in_range [OF b0 bt tc']
  have len: "int (length (py_slice (items (object_list p)) bottom top)) = top - bottom"
    using sl(2) bt by simp
  define PG where "PG = get_page (py_slice (items (object_list p)) bottom top) n q"
  have f1: "fst (page p v) = Inr PG" using q by (simp add: PG_def)
  have f2: "number PG = n" by (simp add: PG_def)
  have f3: "page_object_list PG = py_slice (items (object_list p)) bottom top" by (simp add: PG_def)
  have f4: "page_object_list PG = take (nat (top - bottom)) (drop (nat bottom) (items (object_list p)))"
    using f3 sl(1) by simp
  have f5: "int (length (page_object_list PG)) = top - bottom"
    using f3 len by simp
  show ?thesis
  proof (intro exI conjI)
    show "fst (page p v) = Inr PG" by (fact f1)
    show "number PG = n" by (fact f2)
    show "bottom = (n - 1) * per_page p" by (fact bottom_def)
    show "top = (if bottom + per_page p + orphans p \<ge> int (length (items (object_list p)))
                 then int (length (items (object_list p))) else bottom + per_page p)" by (fact top')
    show "page_object_list PG = py_slice (items (object_list p)) bottom top" by (fact f3)
    show "0 \<le> bottom" by (fact b0)
    show "bottom \<le> top" by (fact bt)
    show "top \<le> int (length (items (object_list p)))" by (fact tc')
    show "page_object_list PG = take (nat (top - bottom)) (drop (nat bottom) (items (object_list p)))"
      by (fact f4)
    show "int (length (page_object_list PG)) = top - bottom" by (fact f5)
  qed
qed

theorem page_slice_witness:
  "cache_ok (Paginator_init (pylist [0..<23::nat]) 10 5 True)
   \<and> 0 < per_page (Paginator_init (pylist [0..<23::nat]) 10 5 True)
   \<and> 0 \<le> orphans (Paginator_init (pylist [0..<23::nat]) 10 5 True)
   \<and> fst (validate_number (Paginator_init (pylist [0..<23::nat]) 10 5 True) (PyInt 2)) = Inr 2
   \<and> fst (get_num_pages (Paginator_init (pylist [0..<23::nat]) 10 5 True)) = Inr 2
   \<and> (\<exists>pg. fst (page (Paginator_init (pylist [0..<23::nat]) 10 5 True) (PyInt 2)) = Inr pg
          \<and> number pg = 2
          \<and> page_object_list pg = [10, 11, 12, 13, 14, 15, 16, 17, 18, 19, 20, 21, 22])"
proof -
  have c: "cache_ok (Paginator_init (pylist [0..<23::nat]) 10 5 True)"
    by (rule cache_ok_init)
  have pp: "0 < per_page (Paginator_init (pylist [0..<23::nat]) 10 5 True)"
    by (simp add: Paginator_init_def)
  have o: "0 \<le> orphans (Paginator_init (pylist [0..<23::nat]) 10 5 True)"
    by (simp add: Paginator_init_def)
  have np: "fst (get_num_pages (Paginator_init (pylist [0..<23::nat]) 10 5 True)) = Inr 2"
    using get_num_pages_value [OF c]
    by (simp add: Paginator_init_def hits_of_def count_of_def)
  have v: "fst (validate_number (Paginator_init (pylist [0..<23::nat]) 10 5 True) (PyInt 2)) = Inr 2"
  proof -
    have "num_pages_of (Paginator_init (pylist [0..<23::nat]) 10 5 True) = Inr 2"
      using get_num_pages_fst [OF c] np by simp
    then have "validate_of (Paginator_init (pylist [0..<23::nat]) 10 5 True) (PyInt 2) = Inr 2"
      by (simp add: validate_of_def)
    then show ?thesis using validate_number_fst [OF c, of "PyInt 2"] by simp
  qed
  from page_slice [OF c pp o v] obtain pg bottom top where
    r: "fst (page (Paginator_init (pylist [0..<23::nat]) 10 5 True) (PyInt 2)) = Inr pg"
       "number pg = 2"
       "bottom = (2 - 1) * per_page (Paginator_init (pylist [0..<23::nat]) 10 5 True)"
       "top = (if bottom + per_page (Paginator_init (pylist [0..<23::nat]) 10 5 True)
                    + orphans (Paginator_init (pylist [0..<23::nat]) 10 5 True)
                  \<ge> int (length (items (object_list (Paginator_init (pylist [0..<23::nat]) 10 5 True))))
               then int (length (items (object_list (Paginator_init (pylist [0..<23::nat]) 10 5 True))))
               else bottom + per_page (Paginator_init (pylist [0..<23::nat]) 10 5 True))"
       "page_object_list pg =
          take (nat (top - bottom))
            (drop (nat bottom) (items (object_list (Paginator_init (pylist [0..<23::nat]) 10 5 True))))"
    by blast
  have b: "bottom = 10" using r(3) by (simp add: Paginator_init_def)
  have t: "top = 23" using r(4) b by (simp add: Paginator_init_def)
  have "page_object_list pg = [10, 11, 12, 13, 14, 15, 16, 17, 18, 19, 20, 21, 22]"
    using r(5) b t by (simp add: Paginator_init_def upt_rec_numeral)
  with c pp o v np r(1,2) show ?thesis by blast
qed

section \<open>The empty first page\<close>

lemma page_raises:
  assumes "fst (validate_number p v) = Inl e"
  shows "fst (page p v) = Inl e"
  using assms by (cases "validate_number p v") (simp add: page_def)

text \<open>
  Claim C10 says that, when an empty first page is allowed, \<open>num_pages\<close> is at least 1
  for every collection, so that \<open>validate_number(1)\<close> succeeds. With \<open>per_page = 2^1024\<close>
  the conversion \<open>float(self.per_page)\<close> raises \<open>OverflowError\<close>: on an empty
  collection, neither \<open>num_pages\<close> nor \<open>validate_number(1)\<close> nor \<open>page(1)\<close> returns.
\<close>

theorem first_page_raises_OverflowError:
  "allow_empty_first_page (Paginator_init (pylist ([] :: nat list)) (2 ^ 1024) 0 True)
   \<and> 0 < per_page (Paginator_init (pylist ([] :: nat list)) (2 ^ 1024) 0 True)
   \<and> fst (get_num_pages (Paginator_init (pylist ([] :: nat list)) (2 ^ 1024) 0 True))
       = Inl OverflowError
   \<and> fst (validate_number (Paginator_init (pylist ([] :: nat list)) (2 ^ 1024) 0 True) (PyInt 1))
       = Inl OverflowError
   \<and> fst (page (Paginator_init (pylist ([] :: nat list)) (2 ^ 1024) 0 True) (PyInt 1))
       = Inl OverflowError"
proof -
  have c: "cache_ok (Paginator_init (pylist ([] :: nat list)) (2 ^ 1024) 0 True)"
    by (rule cache_ok_init)
  have al: "allow_empty_first_page (Paginator_init (pylist ([] :: nat list)) (2 ^ 1024) 0 True)"
    by (simp add: Paginator_init_def)
  have pp: "0 < per_page (Paginator_init (pylist ([] :: nat list)) (2 ^ 1024) 0 True)"
    by (simp add: Paginator_init_def)
  have big: "2 ^ 1024 \<le> per_page (Paginator_init (pylist ([] :: nat list)) (2 ^ 1024) 0 True)"
    by (simp add: Paginator_init_def)
  have ne: "\<not> (count_of (Paginator_init (pylist ([] :: nat list)) (2 ^ 1024) 0 True) = 0
              \<and> \<not> allow_empty_first_page
                     (Paginator_init (pylist ([] :: nat list)) (2 ^ 1024) 0 True))"
    using al by simp
  have np: "num_pages_of (Paginator_init (pylist ([] :: nat list)) (2 ^ 1024) 0 True)
              = Inl OverflowError"
    using big ne by (rule num_pages_of_overflow)
  have g: "fst (get_num_pages (Paginator_init (pylist ([] :: nat list)) (2 ^ 1024) 0 True))
             = Inl OverflowError"
    using get_num_pages_fst [OF c] np by simp
  have v: "fst (validate_number (Paginator_init (pylist ([] :: nat list)) (2 ^ 1024) 0 True)
                  (PyInt 1)) = Inl OverflowError"
    using validate_number_fst [OF c, of "PyInt 1"] np by (simp add: validate_of_def)
  have pg: "fst (page (Paginator_init (pylist ([] :: nat list)) (2 ^ 1024) 0 True) (PyInt 1))
              = Inl OverflowError"
    using v by (rule page_raises)
  from al pp g v pg show ?thesis by blast
qed

text \<open>
  Claim C10, amended. For \<open>0 < per_page < 2^1024 - 2^970\<close> (the integers that \<open>float\<close>
  converts) and \<open>orphans \<ge> 0\<close>: when an empty first page is allowed, \<open>num_pages\<close> is at
  least 1 for every collection; for an empty collection it is exactly 1,
  \<open>validate_number(1)\<close> succeeds and \<open>page(1)\<close> is an empty page numbered 1. Every
  number that \<open>validate_number\<close> accepts lies in \<open>1..num_pages\<close>: a valid page 1 next to
  \<open>num_pages = 0\<close> does not occur.
\<close>

theorem first_page_within_range:
  assumes "cache_ok p" and "0 < per_page p" and "per_page p < 2 ^ 1024 - 2 ^ 970"
    and "0 \<le> orphans p"
  shows "\<exists>np. fst (get_num_pages p) = Inr np \<and>
           (allow_empty_first_page p \<longrightarrow> 1 \<le> np) \<and>
           (allow_empty_first_page p \<and> items (object_list p) = [] \<longrightarrow>
              np = 1 \<and> fst (validate_number p (PyInt 1)) = Inr 1 \<and>
              (\<exists>pg. fst (page p (PyInt 1)) = Inr pg \<and> page_object_list pg = []
                    \<and> number pg = 1)) \<and>
           (\<forall>v n. fst (validate_number p v) = Inr n \<longrightarrow> 1 \<le> n \<and> n \<le> np)"
proof -
  have hs: "hits_of p < 2 ^ 53" using assms(4) by (rule hits_of_small)
  from num_pages_of_returns [OF assms(2,3) hs] obtain np where np: "num_pages_of p = Inr np"
    by blast
  have a: "fst (get_num_pages p) = Inr np"
    using get_num_pages_fst [OF assms(1)] np by simp
  have b: "1 \<le> np" if "allow_empty_first_page p"
  proof -
    from that have "\<not> (count_of p = 0 \<and> \<not> allow_empty_first_page p)" by simp
    with assms(2) hs show ?thesis using np by (rule num_pages_of_bounds(1))
  qed
  have d: "1 \<le> n \<and> n \<le> np" if "fst (validate_number p v) = Inr n" for v n
  proof -
    have "validate_of p v = Inr n"
      using validate_number_fst [OF assms(1), of v] that by simp
    from validate_of_range [OF assms(2,4) this] np show ?thesis by auto
  qed
  have e: "np = 1 \<and> fst (validate_number p (PyInt 1)) = Inr 1 \<and>
           (\<exists>pg. fst (page p (PyInt 1)) = Inr pg \<and> page_object_list pg = [] \<and> number pg = 1)"
    if al: "allow_empty_first_page p" and em: "items (object_list p) = []"
  proof -
    have ne: "\<not> (count_of p = 0 \<and> \<not> allow_empty_first_page p)" using al by simp
    have h: "hits_of p = 1"
      using em assms(4) by (simp add: hits_of_def count_of_def)
    have lo: "(np - 1) * per_page p < 1"
      using num_pages_of_bounds(2) [OF assms(2) hs ne np] h by simp
    have n1: "1 \<le> np" using al by (rule b)
    have "np - 1 \<le> 0"
    proof (rule ccontr)
      assume "\<not> np - 1 \<le> 0"
      then have "1 \<le> np - 1" by simp
      then have "1 * 1 \<le> (np - 1) * per_page p"
        using assms(2) by (intro mult_mono) simp_all
      with lo show False by simp
    qed
    with n1 have one: "np = 1" by simp
    have v1: "validate_of p (PyInt 1) = Inr 1"
      using validate_of_Inr [OF np, of "PyInt 1"] al by simp
    have v1': "fst (validate_number p (PyInt 1)) = Inr 1"
      using validate_number_fst [OF assms(1), of "PyInt 1"] v1 by simp
    from page_eq [OF assms(1) v1] obtain q where
      q: "page p (PyInt 1) =
            (Inr (get_page
               (py_slice (items (object_list p)) ((1 - 1) * per_page p)
                  (if (1 - 1) * per_page p + per_page p + orphans p \<ge> count_of p
                   then count_of p else (1 - 1) * per_page p + per_page p)) 1 q), q)"
      by blast
    have sl: "py_slice (items (object_list p)) lo hi = []" for lo hi
      using em by (simp add: py_slice_def)
    have "\<exists>pg. fst (page p (PyInt 1)) = Inr pg \<and> page_object_list pg = [] \<and> number pg = 1"
      unfolding q sl by simp
    with one v1' show ?thesis by blast
  qed
  from a b d e show ?thesis by blast
qed

theorem first_page_within_range_witness:
  "cache_ok (Paginator_init (pylist ([] :: nat list)) 10 3 True)
   \<and> 0 < per_page (Paginator_init (pylist ([] :: nat list)) 10 3 True)
   \<and> per_page (Paginator_init (pylist ([] :: nat list)) 10 3 True) < 2 ^ 1024 - 2 ^ 970
   \<and> 0 \<le> orphans (Paginator_init (pylist ([] :: nat list)) 10 3 True)
   \<and> fst (get_num_pages (Paginator_init (pylist ([] :: nat list)) 10 3 True)) = Inr 1
   \<and> fst (validate_number (Paginator_init (pylist ([] :: nat list)) 10 3 True) (PyInt 1)) = Inr 1"
proof -
  have c: "cache_ok (Paginator_init (pylist ([] :: nat list)) 10 3 True)"
    by (rule cache_ok_init)
  have pp: "0 < per_page (Paginator_init (pylist ([] :: nat list)) 10 3 True)"
    by (simp add: Paginator_init_def)
  have fl: "per_page (Paginator_init (pylist ([] :: nat list)) 10 3 True) < 2 ^ 1024 - 2 ^ 970"
    by (simp add: Paginator_init_def)
  have o: "0 \<le> orphans (Paginator_init (pylist ([] :: nat list)) 10 3 True)"
    by (simp add: Paginator_init_def)
  have al: "allow_empty_first_page (Paginator_init (pylist ([] :: nat list)) 10 3 True)
            \<and> items (object_list (Paginator_init (pylist ([] :: nat list)) 10 3 True)) = []"
    by (simp add: Paginator_init_def)
  from first_page_within_range [OF c pp fl o] al
  have "fst (get_num_pages (Paginator_init (pylist ([] :: nat list)) 10 3 True)) = Inr 1
        \<and> fst (validate_number (Paginator_init (pylist ([] :: nat list)) 10 3 True) (PyInt 1)) = Inr 1"
    by blast
  with c pp fl o show ?thesis by blast
qed

section \<open>Reading the paginator from a page\<close>


lemma with_num_pages_eq:
  fixes pg :: "'a page"
  assumes "cache_ok (paginator pg)" "num_pages_of (paginator pg) = Inr np"
  shows "\<exists>pg'. (\<forall>k. with_num_pages pg k = k np pg') \<and>
               number pg' = number pg \<and> cache_ok (paginator pg') \<and>
               same_fields (paginator pg) (paginator pg')"
proof -
  from get_num_pages_eq [OF assms(1)] assms(2) obtain q where
    q: "get_num_pages (paginator pg) = (Inr np, q)"
       "same_fields (paginator pg) q" "cache_ok q" by auto
  show ?thesis
  proof (intro exI conjI allI)
    show "with_num_pages pg k = k np (pg\<lparr>paginator := q\<rparr>)" for k
      by (simp add: with_num_pages_def q(1))
    show "number (pg\<lparr>paginator := q\<rparr>) = number pg" by simp
    show "cache_ok (paginator (pg\<lparr>paginator := q\<rparr>))" using q(3) by simp
    show "same_fields (paginator pg) (paginator (pg\<lparr>paginator := q\<rparr>))" using q(2) by simp
  qed
qed




section \<open>Index bounds of a page\<close>



section \<open>The padded page range\<close>

lemma padded_page_range_fst:
  fixes pg :: "'a page"
  assumes "cache_ok (paginator pg)" "num_pages_of (paginator pg) = Inr np"
  shows "fst (padded_page_range pg padding cap) =
           Inr ((if cap \<noteq> 0
                 then map Some [1..min cap np] @
                      (if max (min cap np + 1) (number pg - padding) > min cap np + 1
                       then [None] else [])
                 else []) @
                map Some [max (min cap np + 1) (number pg - padding)..
                          min (number pg + padding) np] @
                (if cap \<noteq> 0 \<and> min (number pg + padding) np < np
                 then (if max (min (number pg + padding) np) (np - cap) + 1
                          > min (number pg + padding) np + 1
                       then [None] else []) @
                      map Some [max (min (number pg + padding) np) (np - cap) + 1..np]
                 else []))"
proof -
  from with_num_pages_eq [OF assms] obtain pg1 where
    h1: "\<forall>k :: int \<Rightarrow> 'a page \<Rightarrow> (error + int option list) \<times> 'a page.
           with_num_pages pg k = k np pg1"
    and n1: "number pg1 = number pg"
    and c1: "cache_ok (paginator pg1)"
    and s1: "same_fields (paginator pg) (paginator pg1)" by blast
  have p1: "num_pages_of (paginator pg1) = Inr np"
    using same_fields_num_pages_of [OF s1] assms(2) by simp
  from with_num_pages_eq [OF c1 p1] obtain pg2 where
    h2: "\<forall>k :: int \<Rightarrow> 'a page \<Rightarrow> (error + int option list) \<times> 'a page.
           with_num_pages pg1 k = k np pg2"
    and n2: "number pg2 = number pg1"
    and c2: "cache_ok (paginator pg2)"
    and s2: "same_fields (paginator pg1) (paginator pg2)" by blast
  have p2: "num_pages_of (paginator pg2) = Inr np"
    using same_fields_num_pages_of [OF s2] p1 by simp
  from with_num_pages_eq [OF c2 p2] obtain pg3 where
    h3: "\<forall>k :: int \<Rightarrow> 'a page \<Rightarrow> (error + int option list) \<times> 'a page.
           with_num_pages pg2 k = k np pg3"
    and n3: "number pg3 = number pg2"
    and c3: "cache_ok (paginator pg3)"
    and s3: "same_fields (paginator pg2) (paginator pg3)" by blast
  have p3: "num_pages_of (paginator pg3) = Inr np"
    using same_fields_num_pages_of [OF s3] p2 by simp
  from with_num_pages_eq [OF c3 p3] obtain pg4 where
    h4: "\<forall>k :: int \<Rightarrow> 'a page \<Rightarrow> (error + int option list) \<times> 'a page.
           with_num_pages pg3 k = k np pg4"
    and n4: "number pg4 = number pg3"
    and c4: "cache_ok (paginator pg4)"
    and s4: "same_fields (paginator pg3) (paginator pg4)" by blast
  have p4: "num_pages_of (paginator pg4) = Inr np"
    using same_fields_num_pages_of [OF s4] p3 by simp
  from with_num_pages_eq [OF c4 p4] obtain pg5 where
    h5: "\<forall>k :: int \<Rightarrow> 'a page \<Rightarrow> (error + int option list) \<times> 'a page.
           with_num_pages pg4 k = k np pg5" by blast
  show ?thesis
    unfolding padded_page_range_def
    by (simp add: h1 [rule_format] h2 [rule_format] h3 [rule_format] h4 [rule_format]
        h5 [rule_format] n1 n2 n3 n4 Let_def)
qed

text \<open>
  Claim C4. For \<open>cap >= 0\<close>, \<open>padded_page_range(padding, cap)\<close> is the head region
  \<open>1..min(cap, num_pages)\<close>, the body region
  \<open>max(head_end + 1, number - padding)..min(number + padding, num_pages)\<close> and, when
  \<open>cap > 0\<close> and \<open>body_end < num_pages\<close>, the tail region
  \<open>max(body_end, num_pages - cap) + 1..num_pages\<close>, with \<open>None\<close> between two regions
  that are not adjacent (and no \<open>None\<close> before the body when \<open>cap = 0\<close>). Page 3 of 6
  with \<open>cap = 1\<close>, \<open>padding = 1\<close> gives \<open>[1, 2, 3, 4, None, 6]\<close>; page 7 of 7 with
  \<open>cap = 0\<close>, \<open>padding = 2\<close> gives \<open>[5, 6, 7]\<close>; page 5 of 9 with \<open>cap = 2\<close>,
  \<open>padding = 1\<close> gives \<open>[1, 2, None, 4, 5, 6, None, 8, 9]\<close>.
\<close>

theorem padded_page_range_regions:
  fixes pg :: "'a page"
  assumes "cache_ok (paginator pg)" and "fst (get_num_pages (paginator pg)) = Inr np"
  shows "(0 \<le> cap \<longrightarrow>
           (\<exists>head_end body_start body_end tail_start.
              head_end = min cap np \<and>
              body_start = max (head_end + 1) (number pg - padding) \<and>
              body_end = min (number pg + padding) np \<and>
              tail_start = max body_end (np - cap) + 1 \<and>
              fst (padded_page_range pg padding cap) =
                Inr (map Some [1..head_end] @
                     (if 0 < cap \<and> body_start > head_end + 1 then [None] else []) @
                     map Some [body_start..body_end] @
                     (if 0 < cap \<and> body_end < np
                      then (if tail_start > body_end + 1 then [None] else []) @
                           map Some [tail_start..np]
                      else []))))
         \<and> (np = 6 \<and> number pg = 3 \<longrightarrow>
              fst (padded_page_range pg 1 1) =
                Inr [Some 1, Some 2, Some 3, Some 4, None, Some 6])
         \<and> (np = 7 \<and> number pg = 7 \<longrightarrow>
              fst (padded_page_range pg 2 0) = Inr [Some 5, Some 6, Some 7])
         \<and> (np = 9 \<and> number pg = 5 \<longrightarrow>
              fst (padded_page_range pg 1 2) =
                Inr [Some 1, Some 2, None, Some 4, Some 5, Some 6, None, Some 8, Some 9])"
proof -
  have np: "num_pages_of (paginator pg) = Inr np"
    using get_num_pages_fst [OF assms(1)] assms(2) by simp
  note eq = padded_page_range_fst [OF assms(1) np]
  have general: "fst (padded_page_range pg padding cap) =
                Inr (map Some [1..min cap np] @
                     (if 0 < cap \<and> max (min cap np + 1) (number pg - padding) > min cap np + 1
                      then [None] else []) @
                     map Some [max (min cap np + 1) (number pg - padding)..
                               min (number pg + padding) np] @
                     (if 0 < cap \<and> min (number pg + padding) np < np
                      then (if max (min (number pg + padding) np) (np - cap) + 1
                               > min (number pg + padding) np + 1 then [None] else []) @
                           map Some [max (min (number pg + padding) np) (np - cap) + 1..np]
                      else []))"
    if cap: "0 \<le> cap"
  proof (cases "cap = 0")
    case True
    have "[1..min 0 np] = []" by simp
    then show ?thesis unfolding eq [of padding cap] using True by simp
  next
    case False
    then have "0 < cap" using cap by simp
    then show ?thesis unfolding eq [of padding cap] using False by simp
  qed
  have ex1: "fst (padded_page_range pg 1 1) =
               Inr [Some 1, Some 2, Some 3, Some 4, None, Some 6]"
    if "np = 6 \<and> number pg = 3"
    unfolding eq [of 1 1] using that by (simp add: upto.simps)
  have ex2: "fst (padded_page_range pg 2 0) = Inr [Some 5, Some 6, Some 7]"
    if "np = 7 \<and> number pg = 7"
    unfolding eq [of 2 0] using that by (simp add: upto.simps)
  have ex3: "fst (padded_page_range pg 1 2) =
               Inr [Some 1, Some 2, None, Some 4, Some 5, Some 6, None, Some 8, Some 9]"
    if "np = 9 \<and> number pg = 5"
    unfolding eq [of 1 2] using that by (simp add: upto.simps)
  from general ex1 ex2 ex3 show ?thesis by blast
qed

theorem padded_page_range_regions_witness:
  "cache_ok (paginator (get_page [] 5 (Paginator_init (pylist [0..<9::nat]) 1 0 True)))
   \<and> fst (get_num_pages (paginator (get_page [] 5 (Paginator_init (pylist [0..<9::nat]) 1 0 True))))
       = Inr 9
   \<and> fst (padded_page_range (get_page [] 5 (Paginator_init (pylist [0..<9::nat]) 1 0 True)) 1 2) =
       Inr [Some 1, Some 2, None, Some 4, Some 5, Some 6, None, Some 8, Some 9]"
proof -
  have c: "cache_ok (paginator (get_page [] 5 (Paginator_init (pylist [0..<9::nat]) 1 0 True)))"
    by (simp add: cache_ok_init)
  have n: "fst (get_num_pages (paginator (get_page [] 5 (Paginator_init (pylist [0..<9::nat]) 1 0 True))))
             = Inr 9"
    using get_num_pages_value [OF cache_ok_init, of "pylist [0..<9::nat]" 1 0 True]
    by (simp add: Paginator_init_def hits_of_def count_of_def)
  have "fst (padded_page_range (get_page [] 5 (Paginator_init (pylist [0..<9::nat]) 1 0 True)) 1 2) =
          Inr [Some 1, Some 2, None, Some 4, Some 5, Some 6, None, Some 8, Some 9]"
    using padded_page_range_regions [OF c n, of 2 1] by (simp add: upto.simps)
  with c n show ?thesis by blast
qed

text \<open>
  Claim C5 says that no page number appears twice in a padded page range, as the
  docstring of \<open>padded_page_range\<close> does (``No page number will be in multiple
  regions''). The code computes \<open>tail_start\<close> from \<open>body_end\<close> alone, so when the body is
  empty and ends before the head does, the tail starts inside the head. On page 1 of 2
  with \<open>padding = 0\<close> and \<open>cap = 2\<close> the head is \<open>1..2\<close>, the body \<open>3..1\<close> is empty and
  the tail is \<open>2..2\<close>: page 2 is listed twice.
\<close>

theorem padded_page_range_repeats_page:
  "(case fst (page (Paginator_init (pylist [0, 1::nat]) 1 0 True) (PyInt 1)) of
      Inl e \<Rightarrow> False
    | Inr pg \<Rightarrow>
        number pg = 1 \<and> fst (get_num_pages (paginator pg)) = Inr 2 \<and>
        fst (padded_page_range pg 0 2) = Inr [Some 1, Some 2, Some 2])"
  by (simp add: page_def validate_number_def padded_page_range_def with_num_pages_def
      get_num_pages_def get_count_def get_page_def Paginator_init_def py_slice_def
      slice_bound_def upto.simps ceil_quotient_returns)

section \<open>The URL generator\<close>

lemma get_url_by_kwarg_eq:
  "get_url_by_kwarg env g n =
     (if n = 1 \<and> truthy_url (base_url g)
      then Inr (build_full_url env (base_url g) (querydict g))
      else Inl TypeError)"
  by (simp add: get_url_by_kwarg_def dict_getitem_slice_def Let_def)

lemma init_no_route:
  assumes "reverse env name args kw app = Inl NoReverseMatch"
  shows "PageURLGenerator_init env qd name args kw app parg = Inl TypeError"
  using assms
  by (simp add: PageURLGenerator_init_def get_url_by_kwarg_eq truthy_url_def Let_def)

lemma init_ValueError_from_reverse:
  assumes "PageURLGenerator_init env qd name args kw app parg = Inl ValueError"
  shows "reverse env name args kw app = Inl ValueError"
proof (cases "reverse env name args kw app")
  case (Inl e)
  with assms show ?thesis
    by (cases "e = NoReverseMatch")
      (simp_all add: PageURLGenerator_init_def get_url_by_kwarg_eq truthy_url_def Let_def)
next
  case (Inr u)
  with assms show ?thesis
    by (cases "u = []")
      (simp_all add: PageURLGenerator_init_def get_url_by_kwarg_eq truthy_url_def Let_def)
qed

lemma init_by_kwarg:
  assumes "PageURLGenerator_init env qd name args kw app parg = Inr g"
  shows "get_url_attr g = Some By_kwarg \<and> truthy_url (base_url g)"
proof (cases "reverse env name args kw app")
  case (Inl e)
  with assms show ?thesis
    by (cases "e = NoReverseMatch")
      (simp_all add: PageURLGenerator_init_def get_url_by_kwarg_eq truthy_url_def Let_def)
next
  case (Inr u)
  with assms show ?thesis
    by (cases "u = []")
      (auto simp add: PageURLGenerator_init_def get_url_by_kwarg_eq truthy_url_def Let_def)
qed

lemma get_url_after_init:
  assumes "PageURLGenerator_init env qd name args kw app parg = Inr g" "n \<noteq> 1"
  shows "get_url env g n = Inl TypeError"
  using init_by_kwarg [OF assms(1)] assms(2)
  by (simp add: get_url_def get_url_by_kwarg_eq)

lemma range_urls_loop_raises:
  assumes "\<exists>x \<in> set page_range. truthy_number x"
  shows "range_urls_loop env g urls page_range = Inl AttributeError"
  using assms
  by (induction page_range arbitrary: urls) (auto simp add: build_url_def)

lemma range_urls_loop_gaps:
  assumes "\<forall>x \<in> set page_range. \<not> truthy_number x"
  shows "range_urls_loop env g urls page_range = Inr (urls @ map (\<lambda>x. (x, None)) page_range)"
  using assms
  by (induction page_range arbitrary: urls) simp_all

text \<open>
  Claim C7 says that a generator whose page number is a path parameter rewrites that
  parameter and resolves the route again for every page. Line 267 of the source,
  \<open>reverse_kwargs[self.page_arg: number]\<close>, subscripts the dictionary with a slice
  where an assignment was meant, so \<open>get_url_by_kwarg\<close> raises \<open>TypeError\<close> before it
  reaches \<open>reverse\<close>: only page 1 of a route that resolves without the page gets a URL.
\<close>

theorem get_url_page_two_raises:
  "(case PageURLGenerator_init \<lparr>reverse = example_reverse, urlencode = enc\<rparr> []
           ''widget_list'' None None None ''page'' of
      Inl e \<Rightarrow> False
    | Inr g \<Rightarrow>
        get_url_attr g = Some By_kwarg \<and>
        get_url \<lparr>reverse = example_reverse, urlencode = enc\<rparr> g 1
          = Inr (Some ''/widgets/list/'') \<and>
        get_url \<lparr>reverse = example_reverse, urlencode = enc\<rparr> g 2 = Inl TypeError)"
  by (simp add: PageURLGenerator_init_def get_url_def get_url_by_kwarg_eq truthy_url_def
      build_full_url_def example_reverse_def Let_def)

text \<open>
  Claim C8 says that \<open>range_urls\<close> pairs every page number with its URL and keeps a gap
  as \<open>(None, None)\<close>. The method calls \<open>self.build_url\<close>, which the class does not
  define (the generator's method is \<open>get_url\<close>), so a range with a page number in it
  raises \<open>AttributeError\<close>; only a range of gaps returns.
\<close>

theorem range_urls_raises:
  "(case PageURLGenerator_init \<lparr>reverse = example_reverse, urlencode = enc\<rparr> []
           ''widget_list'' None None None ''page'' of
      Inl e \<Rightarrow> False
    | Inr g \<Rightarrow>
        range_urls \<lparr>reverse = example_reverse, urlencode = enc\<rparr> g [Some 1, None, Some 3]
          = Inl AttributeError \<and>
        range_urls \<lparr>reverse = example_reverse, urlencode = enc\<rparr> g [None]
          = Inr [(None, None)])"
  by (simp add: PageURLGenerator_init_def get_url_by_kwarg_eq truthy_url_def
      build_full_url_def example_reverse_def range_urls_def build_url_def truthy_number_def
      Let_def)

text \<open>
  Claim C9 says that a route name that does not resolve makes the constructor fail with
  the configuration error (\<open>ValueError\<close>, ``URL for ... not found''). The constructor
  does fail, but in the trial call \<open>get_url_by_kwarg(1)\<close>: with no base URL the call
  takes the branch of line 267 and raises \<open>TypeError\<close>, which the constructor does not
  catch, so the \<open>raise ValueError\<close> of line 255 is never reached.
\<close>

theorem init_unknown_route_raises_TypeError:
  "PageURLGenerator_init \<lparr>reverse = example_reverse, urlencode = enc\<rparr> []
     ''no_such_route'' None None None ''page'' = Inl TypeError"
  by (simp add: PageURLGenerator_init_def get_url_by_kwarg_eq truthy_url_def
      example_reverse_def Let_def)

end
